theory Spec2Isabelle
  imports Complex_Main
begin

section \<open>Data model of \<open>main.py\<close>\<close>

text \<open>
  The program keeps one dictionary per known person in the global \<open>people_status\<close>:
  \<^verbatim>\<open>{"best_cam_index": int, "distance": float, "is_match": bool, "ref_img": image}\<close>.
  Images are opaque to the program (they are only handed to OpenCV and DeepFace), so the
  image type is a parameter \<open>'img\<close>. Distances are Python floats that the program only
  compares with \<open><\<close> and stores; they are modelled as reals (a NaN is outside the model).
\<close>

type_synonym name = string

datatype py_error = IndexError | KeyError

record 'img status =
  best_cam_index :: int
  distance :: real
  is_match :: bool
  ref_img :: 'img

type_synonym 'img registry = "name \<rightharpoonup> 'img status"

text \<open>
  \<open>DeepFace.verify\<close> either raises or returns a dictionary of which the program reads
  \<open>result["verified"]\<close> and \<open>result["distance"]\<close>.
\<close>

datatype verdict = Raised | Result bool real

type_synonym 'img verifier = "'img \<Rightarrow> 'img \<Rightarrow> verdict"

text \<open>
  \<open>frames_dict\<close> is a Python dict from camera index to frame; a Python dict iterates
  in insertion order, so it is an association list.
\<close>

type_synonym 'img frames = "(int \<times> 'img) list"

section \<open>The background worker\<close>

text \<open>The accumulators \<open>(current_best_cam, current_best_dist, found_match)\<close>.\<close>

type_synonym acc = "int \<times> real \<times> bool"

text \<open>Lines 84 to 86: the accumulators at the start of every person's scan.\<close>

definition acc_init :: acc where
  "acc_init = (- 1, 10, False)"

text \<open>
  Lines 92 to 112: the body of the camera loop. An exception of the oracle is caught
  by \<open>except Exception: pass\<close>.
\<close>

fun check_camera :: "'img verifier \<Rightarrow> 'img \<Rightarrow> acc \<Rightarrow> int \<times> 'img \<Rightarrow> acc" where
  "check_camera verify ref (current_best_cam, current_best_dist, found_match) (cam_idx, frame) =
     (case verify frame ref of
        Raised \<Rightarrow> (current_best_cam, current_best_dist, found_match)
      | Result verified d \<Rightarrow>
          if verified then
            (if d < current_best_dist then (cam_idx, d, True)
             else (current_best_cam, current_best_dist, True))
          else (current_best_cam, current_best_dist, found_match))"

text \<open>Lines 91 to 112: \<open>for cam_idx, frame in frames_dict.items()\<close>.\<close>

definition check_every_camera :: "'img verifier \<Rightarrow> 'img \<Rightarrow> 'img frames \<Rightarrow> acc" where
  "check_every_camera verify ref frames_dict = foldl (check_camera verify ref) acc_init frames_dict"

text \<open>
  Lines 115 to 117: the three field assignments, in the order of the source, on the
  person's own dictionary (the \<open>ref_img\<close> entry is not assigned).
\<close>

definition publish :: "'img verifier \<Rightarrow> 'img frames \<Rightarrow> 'img status \<Rightarrow> 'img status" where
  "publish verify frames_dict st =
     (case check_every_camera verify (ref_img st) frames_dict of
        (current_best_cam, current_best_dist, found_match) \<Rightarrow>
          st\<lparr>is_match := found_match\<rparr>\<lparr>best_cam_index := current_best_cam\<rparr>
            \<lparr>distance := current_best_dist\<rparr>)"

text \<open>
  Lines 83 to 117: one iteration of \<open>for name in valid_people\<close>. The lookup
  \<open>people_status[name]\<close> raises \<open>KeyError\<close> for a name that is not a key.
\<close>

definition process_person ::
  "'img verifier \<Rightarrow> 'img frames \<Rightarrow> 'img registry \<Rightarrow> name \<Rightarrow> py_error + 'img registry" where
  "process_person verify frames_dict people_status n =
     (case people_status n of
        None \<Rightarrow> Inl KeyError
      | Some st \<Rightarrow> Inr (people_status(n \<mapsto> publish verify frames_dict st)))"

text \<open>
  Lines 81 to 120: the loop over the people inside \<open>try\<close>. An exception that leaves
  the loop body ends the pass (\<open>except Exception as e: print(...)\<close>); what was written
  until then stays.
\<close>

fun pass_loop ::
  "'img verifier \<Rightarrow> 'img frames \<Rightarrow> name list \<Rightarrow> 'img registry \<Rightarrow> 'img registry" where
  "pass_loop verify frames_dict [] people_status = people_status"
| "pass_loop verify frames_dict (n # ns) people_status =
     (case process_person verify frames_dict people_status n of
        Inl e \<Rightarrow> people_status
      | Inr people_status' \<Rightarrow> pass_loop verify frames_dict ns people_status')"

text \<open>The people the loop reached before it ended.\<close>

definition reached :: "name list \<Rightarrow> 'img registry \<Rightarrow> name list" where
  "reached valid_people people_status = takeWhile (\<lambda>n. people_status n \<noteq> None) valid_people"

section \<open>What the oracle said in a pass\<close>

text \<open>
  The cameras of the snapshot whose frame the oracle verified against a reference
  image, with the distance it returned, in the order of the snapshot.
\<close>

definition verified_cams :: "'img verifier \<Rightarrow> 'img \<Rightarrow> 'img frames \<Rightarrow> (int \<times> real) list" where
  "verified_cams verify ref frames_dict =
     concat (map (\<lambda>(cam_idx, frame).
       case verify frame ref of Result True d \<Rightarrow> [(cam_idx, d)] | _ \<Rightarrow> []) frames_dict)"

definition min_distance :: "(int \<times> real) list \<Rightarrow> real" where
  "min_distance vc = Min (set (map snd vc))"

definition lowest_cam_at :: "(int \<times> real) list \<Rightarrow> real \<Rightarrow> int" where
  "lowest_cam_at vc m = Min (set (map fst (filter (\<lambda>p. snd p = m) vc)))"

section \<open>The pass as the sequence of its dictionary writes\<close>

text \<open>
  The worker runs in its own thread while the main loop goes on, and lines 115 to 117
  are three separate assignments to entries of the person's dictionary. A write names
  the person and the entry it assigns.
\<close>

datatype wr = SetMatch name bool | SetCam name int | SetDist name real

text \<open>
  A write is issued only after \<open>people_status[name]\<close> was read for the same name, and no
  key is ever removed, so the lookup of a write does not fail; the model leaves the
  registry as it is there.
\<close>

fun apply_write :: "'img registry \<Rightarrow> wr \<Rightarrow> 'img registry" where
  "apply_write ps (SetMatch n b) =
     (case ps n of None \<Rightarrow> ps | Some st \<Rightarrow> ps(n \<mapsto> st\<lparr>is_match := b\<rparr>))"
| "apply_write ps (SetCam n c) =
     (case ps n of None \<Rightarrow> ps | Some st \<Rightarrow> ps(n \<mapsto> st\<lparr>best_cam_index := c\<rparr>))"
| "apply_write ps (SetDist n d) =
     (case ps n of None \<Rightarrow> ps | Some st \<Rightarrow> ps(n \<mapsto> st\<lparr>distance := d\<rparr>))"

text \<open>Lines 115 to 117 for one person, as writes.\<close>

definition person_writes :: "'img verifier \<Rightarrow> 'img frames \<Rightarrow> name \<Rightarrow> 'img status \<Rightarrow> wr list" where
  "person_writes verify frames_dict n st =
     (case check_every_camera verify (ref_img st) frames_dict of
        (current_best_cam, current_best_dist, found_match) \<Rightarrow>
          [SetMatch n found_match, SetCam n current_best_cam, SetDist n current_best_dist])"

text \<open>
  The writes of a whole pass, in program order. The pass reads of the registry only the
  keys and the \<open>ref_img\<close> entries, which no write changes (lemma
  \<open>pass_writes_cong\<close>), so the writes are those computed from the registry at the start
  of the pass; lemma \<open>pass_writes_run\<close> shows that performing them all is \<open>pass_loop\<close>.
\<close>

fun pass_writes :: "'img verifier \<Rightarrow> 'img frames \<Rightarrow> name list \<Rightarrow> 'img registry \<Rightarrow> wr list" where
  "pass_writes verify frames_dict [] ps = []"
| "pass_writes verify frames_dict (n # ns) ps =
     (case ps n of
        None \<Rightarrow> []
      | Some st \<Rightarrow> person_writes verify frames_dict n st @ pass_writes verify frames_dict ns ps)"

text \<open>The registry a reader sees after the first \<open>k\<close> writes of a pass.\<close>

definition mid_pass ::
  "'img verifier \<Rightarrow> 'img frames \<Rightarrow> name list \<Rightarrow> 'img registry \<Rightarrow> nat \<Rightarrow> 'img registry" where
  "mid_pass verify frames_dict valid_people people_status k =
     foldl apply_write people_status
       (take k (pass_writes verify frames_dict valid_people people_status))"

section \<open>Cameras and capture\<close>

text \<open>
  A \<open>cv2.VideoCapture\<close>: \<open>feed k\<close> is what the \<open>k\<close>-th call of \<open>read()\<close> delivers
  (\<open>None\<close> when \<open>ret\<close> is false), \<open>cursor\<close> counts the calls made so far.
\<close>

record 'img camera =
  feed :: "nat \<Rightarrow> 'img option"
  cursor :: nat

definition cap_read :: "'img camera \<Rightarrow> 'img option \<times> 'img camera" where
  "cap_read cap = (feed cap (cursor cap), cap\<lparr>cursor := Suc (cursor cap)\<rparr>)"

text \<open>
  Lines 137 to 141: \<open>for i, cap in enumerate(caps)\<close>. \<open>valid_capture\<close> is set exactly
  when an entry is added, so it is \<open>current_frames \<noteq> []\<close>.
\<close>

fun capture_loop :: "nat \<Rightarrow> 'img camera list \<Rightarrow> 'img frames \<times> 'img camera list" where
  "capture_loop i [] = ([], [])"
| "capture_loop i (cap # rest) =
     (case cap_read cap of
        (ret, cap') \<Rightarrow>
          (case capture_loop (Suc i) rest of
             (current_frames, rest') \<Rightarrow>
               ((case ret of Some frame \<Rightarrow> [(int i, frame)] | None \<Rightarrow> []) @ current_frames,
                cap' # rest')))"

section \<open>The display\<close>

text \<open>
  What \<open>cv2.imshow\<close> is given for a person: the frame of the winning camera with its
  index and the distance drawn on it, or the black screen.
\<close>

datatype 'img view = Winner int 'img real | Searching

section \<open>The program state, startup and the main loop\<close>

text \<open>
  The main thread and the worker thread share \<open>people_status\<close> with no lock, and the
  display reads the entries of a person's dictionary one at a time (lines 163, 165 and
  169), so the main loop is modelled by the steps between which a write of the worker
  can fall. The control point of the main thread, with the locals it holds:
  \<^item> \<open>AtCapture\<close>: line 130, the start of an iteration;
  \<^item> \<open>AtPerson ns\<close>: line 160, with the people still to show;
  \<^item> \<open>AtMembership n ns\<close>: in line 163, \<open>status["is_match"]\<close> was read as true and
    \<open>status["best_cam_index"] in current_frames\<close> is next;
  \<^item> \<open>AtCamIdx n ns\<close>: line 165;
  \<^item> \<open>AtDistance n ns cam_idx display_frame\<close>: line 169;
  \<^item> \<open>AtWaitKey\<close>: line 192.
\<close>

datatype 'img pc =
    AtCapture
  | AtPerson "name list"
  | AtMembership name "name list"
  | AtCamIdx name "name list"
  | AtDistance name "name list" int 'img
  | AtWaitKey

text \<open>
  The globals of the script and the control point of the main thread. A running worker
  thread is the list of the writes its pass has still to perform; after the last one it
  runs \<open>finally: is_processing = False\<close> and ends.
\<close>

record 'img sys =
  people_status :: "'img registry"
  valid_people :: "name list"
  caps :: "'img camera list"
  is_processing :: bool
  counter :: nat
  current_frames :: "'img frames"
  windows :: "name \<rightharpoonup> 'img view"
  threads :: "wr list list"
  pc :: "'img pc"

datatype source = Url string | Device int

definition PEOPLE_CONFIG :: "(name \<times> string) list" where
  "PEOPLE_CONFIG =
     [(''Naitik'', ''./Images/naitik4.png''), (''Isha'', ''./Images/isha.png''),
      (''Keval'', ''./Images/keval2.png'')]"

definition CAMERA_SOURCES :: "source list" where
  "CAMERA_SOURCES = [Url ''http://192.168.1.5:8080/video'', Device 0]"

text \<open>Lines 40 to 52: \<open>imread\<close> gives \<open>None\<close> for a file it cannot load.\<close>

fun load_references ::
  "(string \<Rightarrow> 'img option) \<Rightarrow> (name \<times> string) list \<Rightarrow> 'img registry \<times> name list \<Rightarrow>
     'img registry \<times> name list" where
  "load_references imread [] (ps, vp) = (ps, vp)"
| "load_references imread ((n, path) # rest) (ps, vp) =
     (case imread path of
        Some img \<Rightarrow>
          load_references imread rest
            (ps(n \<mapsto> \<lparr>best_cam_index = - 1, distance = 10, is_match = False, ref_img = img\<rparr>),
             vp @ [n])
      | None \<Rightarrow> load_references imread rest (ps, vp))"

text \<open>
  Lines 32 to 73 and 127: the script up to the main loop. No statement of it ends the
  process: a failed \<open>imread\<close> prints, \<open>cv2.VideoCapture\<close> returns an object for any
  source, and an error of \<open>DeepFace.build_model\<close> is caught and printed.
\<close>

definition startup ::
  "(string \<Rightarrow> 'img option) \<Rightarrow> (source \<Rightarrow> 'img camera) \<Rightarrow> (name \<times> string) list \<Rightarrow>
     source list \<Rightarrow> 'img sys" where
  "startup imread VideoCapture people_config camera_sources =
     (case load_references imread people_config (Map.empty, []) of
        (ps, vp) \<Rightarrow>
          \<lparr>people_status = ps, valid_people = vp, caps = map VideoCapture camera_sources,
           is_processing = False, counter = 0, current_frames = [], windows = Map.empty,
           threads = [], pc = AtCapture\<rparr>)"

text \<open>
  Lines 130 to 157: capture, dispatch and the counter. \<open>caps[0]\<close> raises \<open>IndexError\<close>
  on an empty list; nothing catches it, so the process ends with a traceback. The dummy
  read and the loop read the same camera object, so the loop continues from the camera
  the dummy read left. \<open>frames_copy\<close> has the entries of \<open>current_frames\<close> in the same
  order; the thread started on it is given by the writes of its pass. These lines read
  no entry of \<open>people_status\<close>, and only the main thread sets \<open>is_processing\<close>, so they
  are one step.
\<close>

definition capture_dispatch :: "'img verifier \<Rightarrow> 'img sys \<Rightarrow> py_error + 'img sys" where
  "capture_dispatch verify s =
     (case caps s of
        [] \<Rightarrow> Inl IndexError
      | cap0 # rest \<Rightarrow>
          (case cap_read cap0 of
             (ret0, cap0') \<Rightarrow>
               (case capture_loop 0 (cap0' # rest) of
                  (frames, caps') \<Rightarrow>
                    let s1 = s\<lparr>caps := caps', current_frames := frames\<rparr> in
                    if frames \<noteq> [] then
                      let s2 = (if counter s1 mod 30 = 0 \<and> \<not> is_processing s1
                                then s1\<lparr>is_processing := True,
                                        threads := threads s1 @
                                          [pass_writes verify frames (valid_people s1) (people_status s1)]\<rparr>
                                else s1)
                      in Inr (s2\<lparr>counter := counter s2 + 1, pc := AtPerson (valid_people s2)\<rparr>)
                    else Inr (s1\<lparr>pc := AtWaitKey\<rparr>))))"

text \<open>Line 187, and on to the next person.\<close>

definition show_window :: "name \<Rightarrow> 'img view \<Rightarrow> name list \<Rightarrow> 'img sys \<Rightarrow> 'img sys" where
  "show_window n v ns s = s\<lparr>windows := (windows s)(n \<mapsto> v), pc := AtPerson ns\<rparr>"

text \<open>
  One step of the main thread from a control point. \<open>status\<close> (line 161) is a
  reference to the person's dictionary, so each later read sees that dictionary as it
  is when the read is made; \<open>people_status[name]\<close> raises \<open>KeyError\<close> for a name that
  is not a key, and so does \<open>current_frames[cam_idx]\<close> (line 166) for an index that is
  not a key of \<open>current_frames\<close>. \<open>current_frames\<close> has one entry per key, so \<open>map_of\<close>
  is the dictionary lookup.
\<close>

fun step_at :: "'img verifier \<Rightarrow> 'img pc \<Rightarrow> 'img sys \<Rightarrow> py_error + 'img sys" where
  "step_at verify AtCapture s = capture_dispatch verify s"
| "step_at verify (AtPerson []) s = Inr (s\<lparr>pc := AtWaitKey\<rparr>)"
| "step_at verify (AtPerson (n # ns)) s =
     (case people_status s n of
        None \<Rightarrow> Inl KeyError
      | Some status \<Rightarrow>
          if is_match status then Inr (s\<lparr>pc := AtMembership n ns\<rparr>)
          else Inr (show_window n Searching ns s))"
| "step_at verify (AtMembership n ns) s =
     (case people_status s n of
        None \<Rightarrow> Inl KeyError
      | Some status \<Rightarrow>
          if map_of (current_frames s) (best_cam_index status) \<noteq> None
          then Inr (s\<lparr>pc := AtCamIdx n ns\<rparr>)
          else Inr (show_window n Searching ns s))"
| "step_at verify (AtCamIdx n ns) s =
     (case people_status s n of
        None \<Rightarrow> Inl KeyError
      | Some status \<Rightarrow>
          (case map_of (current_frames s) (best_cam_index status) of
             None \<Rightarrow> Inl KeyError
           | Some display_frame \<Rightarrow>
               Inr (s\<lparr>pc := AtDistance n ns (best_cam_index status) display_frame\<rparr>)))"
| "step_at verify (AtDistance n ns cam_idx display_frame) s =
     (case people_status s n of
        None \<Rightarrow> Inl KeyError
      | Some status \<Rightarrow> Inr (show_window n (Winner cam_idx display_frame (distance status)) ns s))"
| "step_at verify AtWaitKey s = Inr (s\<lparr>pc := AtCapture\<rparr>)"

definition main_step :: "'img verifier \<Rightarrow> 'img sys \<Rightarrow> py_error + 'img sys" where
  "main_step verify s = step_at verify (pc s) s"

text \<open>
  Lines 75 to 122 as the thread runs them: thread \<open>i\<close> performs its next write, or,
  with none left, resets the flag (line 122) and ends.
\<close>

definition worker_step :: "nat \<Rightarrow> 'img sys \<Rightarrow> 'img sys" where
  "worker_step i s =
     (if i < length (threads s) then
        (case threads s ! i of
           [] \<Rightarrow> s\<lparr>is_processing := False, threads := take i (threads s) @ drop (Suc i) (threads s)\<rparr>
         | w # ws \<Rightarrow>
             s\<lparr>people_status := apply_write (people_status s) w, threads := (threads s)[i := ws]\<rparr>)
      else s)"

text \<open>
  Lines 75 to 122 run in one go: the registry after the pass, and the flag reset by
  \<open>finally\<close>.
\<close>

definition process_multi_camera :: "'img verifier \<Rightarrow> 'img frames \<Rightarrow> 'img sys \<Rightarrow> 'img sys" where
  "process_multi_camera verify frames_dict s =
     s\<lparr>people_status := pass_loop verify frames_dict (valid_people s) (people_status s),
       is_processing := False\<rparr>"

text \<open>
  The process: a step of the main thread or a step of a worker thread, in any order.
  The step of the main thread at line 192 reads a key, and \<open>MainStep q\<close> says whether
  that key is \<open>q\<close> (lines 193 and 194); at the other control points the key plays no
  part. An uncaught exception of the main thread ends the process with exit status 1,
  the key \<open>q\<close> with 0.
\<close>

datatype event = MainStep bool | WorkerStep nat

datatype 'img run = Running "'img sys" | Crashed py_error | Quit "'img sys"

fun sys_step :: "'img verifier \<Rightarrow> 'img run \<Rightarrow> event \<Rightarrow> 'img run" where
  "sys_step verify (Running s) (MainStep q) =
     (case main_step verify s of
        Inl e \<Rightarrow> Crashed e
      | Inr s' \<Rightarrow> if q \<and> pc s = AtWaitKey then Quit s' else Running s')"
| "sys_step verify (Running s) (WorkerStep i) = Running (worker_step i s)"
| "sys_step verify (Crashed e) ev = Crashed e"
| "sys_step verify (Quit s) ev = Quit s"

definition run_events :: "'img verifier \<Rightarrow> event list \<Rightarrow> 'img sys \<Rightarrow> 'img run" where
  "run_events verify evs s = foldl (sys_step verify) (Running s) evs"

text \<open>The state of a process that is still running.\<close>

fun state_of :: "'img run \<Rightarrow> 'img sys option" where
  "state_of (Running s) = Some s"
| "state_of (Crashed e) = None"
| "state_of (Quit s) = None"

fun exit_status :: "'img run \<Rightarrow> nat option" where
  "exit_status (Running s) = None"
| "exit_status (Crashed e) = Some 1"
| "exit_status (Quit s) = Some 0"

section \<open>Invariants of the process\<close>



definition never_on :: "'img sys \<Rightarrow> bool" where
  "never_on s \<longleftrightarrow> (\<forall>c \<in> set (caps s). \<forall>k. feed c k = None)"


text \<open>
  A process with a camera configured that has nobody to show or never captures a frame:
  its main thread is never at a read of a person's dictionary.
\<close>

definition quiet :: "'img sys \<Rightarrow> bool" where
  "quiet s \<longleftrightarrow>
     caps s \<noteq> [] \<and> (valid_people s = [] \<or> never_on s) \<and>
     (pc s = AtCapture \<or> pc s = AtWaitKey \<or> pc s = AtPerson [])"

section \<open>Reads while a pass runs\<close>

text \<open>
  The records a person's entry goes through while lines 115 to 117 run for that person:
  the entry as it was, with the new \<open>is_match\<close>, with the new \<open>is_match\<close> and
  \<open>best_cam_index\<close>, and with all three.
\<close>

definition partly_published ::
  "'img verifier \<Rightarrow> 'img frames \<Rightarrow> 'img status \<Rightarrow> 'img status \<Rightarrow> bool" where
  "partly_published verify frames_dict st m \<longleftrightarrow>
     m = st \<or>
     m = st\<lparr>is_match := is_match (publish verify frames_dict st)\<rparr> \<or>
     m = st\<lparr>is_match := is_match (publish verify frames_dict st),
            best_cam_index := best_cam_index (publish verify frames_dict st)\<rparr> \<or>
     m = publish verify frames_dict st"

text \<open>
  The camera index the main thread holds in \<open>cam_idx\<close> at line 169 was read while the
  pass ran: it is the one of the start of the pass or the one the pass publishes.
\<close>

definition cam_idx_read ::
  "'img verifier \<Rightarrow> 'img frames \<Rightarrow> 'img registry \<Rightarrow> 'img pc \<Rightarrow> bool" where
  "cam_idx_read verify frames_dict ps0 p \<longleftrightarrow>
     (case p of
        AtDistance n ns cam_idx display_frame \<Rightarrow>
          (case ps0 n of
             None \<Rightarrow> False
           | Some st \<Rightarrow>
               cam_idx = best_cam_index st \<or>
               cam_idx = best_cam_index (publish verify frames_dict st))
      | _ \<Rightarrow> True)"

text \<open>
  The steps of thread 0 among the events; there is never a second thread, so these are
  the writes performed.
\<close>

definition worker_steps :: "event list \<Rightarrow> nat" where
  "worker_steps evs = length (filter (\<lambda>ev. ev = WorkerStep 0) evs)"


section \<open>Concrete runs\<close>

text \<open>
  Two people, two cameras: camera 0 verifies A at distance 0.20 and camera 1 at 0.35;
  B is verified on neither. Reference images and frames are named by strings.
\<close>

definition scen_verify :: "string verifier" where
  "scen_verify frame ref =
     (if ref = ''A.png'' then (if frame = ''f0'' then Result True 0.2 else Result True 0.35)
      else Result False 0.9)"

definition scen_frames :: "string frames" where
  "scen_frames = [(0, ''f0''), (1, ''f1'')]"

definition scen_camera :: "source \<Rightarrow> string camera" where
  "scen_camera src =
     \<lparr>feed = (\<lambda>k. Some (case src of Device j \<Rightarrow> if j = 0 then ''f0'' else ''f1'' | Url u \<Rightarrow> u)),
      cursor = 0\<rparr>"

definition scen_sys :: "string sys" where
  "scen_sys = startup Some scen_camera [(''A'', ''A.png''), (''B'', ''B.png'')] [Device 0, Device 1]"

text \<open>
  Other answers of the oracle on the same frames: a verified result at distance 12, a
  verified result at exactly 10.0, and an exception for the pair (A, camera 0).
\<close>

definition far_verify :: "string verifier" where
  "far_verify frame ref = (if ref = ''A.png'' \<and> frame = ''f0'' then Result True 12 else Result False 20)"

definition edge_verify :: "string verifier" where
  "edge_verify frame ref = (if ref = ''A.png'' \<and> frame = ''f1'' then Result True 10 else Raised)"

definition err_verify :: "string verifier" where
  "err_verify frame ref =
     (if ref = ''A.png'' then (if frame = ''f0'' then Raised else Result True 0.35)
      else Result False 0.9)"

text \<open>A registry that lacks a name of \<open>valid_people\<close>, so that the pass ends early.\<close>

definition abort_sys :: "string sys" where
  "abort_sys = scen_sys\<lparr>valid_people := [''A'', ''C'', ''B'']\<rparr>"

text \<open>
  One camera that delivers the number of the read as its frame, opened at read 5, and
  no reference image.
\<close>

definition count_sys :: "nat sys" where
  "count_sys = startup (\<lambda>path. None) (\<lambda>src. \<lparr>feed = Some, cursor = 5\<rparr>) [] [Device 0]"

text \<open>An \<open>imread\<close> that loads no file, and cameras that never deliver a frame.\<close>

definition imread_fails :: "string \<Rightarrow> string option" where
  "imread_fails path = None"

definition dead_camera :: "source \<Rightarrow> string camera" where
  "dead_camera src = \<lparr>feed = (\<lambda>k. None), cursor = 0\<rparr>"

text \<open>
  An oracle that answers as \<open>scen_verify\<close> on the frames of the snapshot and raises on
  every other frame, and a state whose registry holds what an earlier pass published.
\<close>

definition alt_verify :: "string verifier" where
  "alt_verify frame ref =
     (if frame = ''f0'' \<or> frame = ''f1'' then scen_verify frame ref else Raised)"

definition prior_sys :: "string sys" where
  "prior_sys = process_multi_camera err_verify scen_frames scen_sys"

text \<open>
  A state in the middle of a pass that takes the match of A away: A was published on
  camera 0, the worker has written \<open>is_match\<close> and has the other two writes to do, and
  the main thread has passed line 163 for A before that write.
\<close>

definition race_sys :: "string sys" where
  "race_sys =
     scen_sys\<lparr>people_status := (people_status scen_sys)
                 (''A'' \<mapsto> \<lparr>best_cam_index = 0, distance = 0.2, is_match = False,
                            ref_img = ''A.png''\<rparr>),
              current_frames := scen_frames, is_processing := True,
              threads := [[SetCam ''A'' (- 1), SetDist ''A'' 10]],
              pc := AtCamIdx ''A'' [''B'']\<rparr>"

section \<open>Properties of the worker\<close>

lemma publish_ref_img: "ref_img (publish verify frames_dict st) = ref_img st"
  by (simp add: publish_def split: prod.splits)

lemma publish_idem:
  "publish verify frames_dict (publish verify frames_dict st) = publish verify frames_dict st"
  by (simp add: publish_def split: prod.splits)

lemma reached_Cons_Some:
  "ps a = Some st \<Longrightarrow> reached (a # ns) ps = a # reached ns ps"
  by (simp add: reached_def)

lemma reached_Cons_None: "ps a = None \<Longrightarrow> reached (a # ns) ps = []"
  by (simp add: reached_def)

lemma reached_cong:
  "dom ps' = dom ps \<Longrightarrow> reached ns ps' = reached ns ps"
  unfolding reached_def by (rule takeWhile_cong) (auto simp: domIff dest: equalityD1 equalityD2)

lemma reached_all: "set vp \<subseteq> dom ps \<Longrightarrow> reached vp ps = vp"
  unfolding reached_def by (induction vp) auto

lemma reached_subset: "set (reached vp ps) \<subseteq> set vp"
  unfolding reached_def by (auto dest: set_takeWhileD)

lemma pass_loop_eq:
  "pass_loop verify frames_dict vp ps =
     (\<lambda>n. if n \<in> set (reached vp ps) then map_option (publish verify frames_dict) (ps n)
          else ps n)"
proof (induction vp arbitrary: ps)
  case Nil
  show ?case by (simp add: reached_def)
next
  case (Cons a ns)
  show ?case
  proof (cases "ps a")
    case None
    then show ?thesis by (simp add: reached_Cons_None process_person_def)
  next
    case (Some st)
    let ?ps' = "ps(a \<mapsto> publish verify frames_dict st)"
    have r: "reached ns ?ps' = reached ns ps"
      by (rule reached_cong) (auto simp: Some)
    have "pass_loop verify frames_dict (a # ns) ps = pass_loop verify frames_dict ns ?ps'"
      by (simp add: process_person_def Some)
    also have "\<dots> = (\<lambda>n. if n \<in> set (reached ns ?ps')
          then map_option (publish verify frames_dict) (?ps' n) else ?ps' n)"
      by (rule Cons.IH)
    also have "\<dots> = (\<lambda>n. if n \<in> set (reached (a # ns) ps)
          then map_option (publish verify frames_dict) (ps n) else ps n)"
      by (rule ext) (auto simp: r reached_Cons_Some[of ps a st ns] Some publish_idem)
    finally show ?thesis .
  qed
qed

lemma pass_loop_reached:
  "n \<in> set (reached vp ps) \<Longrightarrow> ps n = Some st \<Longrightarrow>
     pass_loop verify frames_dict vp ps n = Some (publish verify frames_dict st)"
  by (simp add: pass_loop_eq)

lemma pass_loop_valid:
  "set vp \<subseteq> dom ps \<Longrightarrow> n \<in> set vp \<Longrightarrow> ps n = Some st \<Longrightarrow>
     pass_loop verify frames_dict vp ps n = Some (publish verify frames_dict st)"
  by (simp add: pass_loop_eq reached_all)

lemma pass_loop_unreached:
  "n \<notin> set (reached vp ps) \<Longrightarrow> pass_loop verify frames_dict vp ps n = ps n"
  by (simp add: pass_loop_eq)

lemma pass_loop_dom: "dom (pass_loop verify frames_dict vp ps) = dom ps"
  by (auto simp: pass_loop_eq domIff split: if_splits)

lemma pass_loop_ref_img:
  "map_option ref_img (pass_loop verify frames_dict vp ps n) = map_option ref_img (ps n)"
  by (cases "ps n") (auto simp: pass_loop_eq publish_ref_img)

subsection \<open>The camera scan\<close>

lemma verified_cams_Nil: "verified_cams verify ref [] = []"
  by (simp add: verified_cams_def)

lemma verified_cams_Cons:
  "verified_cams verify ref ((i, fr) # rest) =
     (case verify fr ref of Result True d \<Rightarrow> [(i, d)] | _ \<Rightarrow> []) @ verified_cams verify ref rest"
  by (simp add: verified_cams_def)

lemma verified_cams_keys:
  "(i, d) \<in> set (verified_cams verify ref frames_dict) \<Longrightarrow> i \<in> fst ` set frames_dict"
  by (induction frames_dict) (force simp: verified_cams_Cons verified_cams_Nil split: verdict.splits bool.splits)+

lemma scan_found:
  "snd (snd (foldl (check_camera verify ref) (c0, d0, f0) frames_dict)) \<longleftrightarrow>
     f0 \<or> verified_cams verify ref frames_dict \<noteq> []"
  by (induction frames_dict arbitrary: c0 d0 f0)
     (auto simp: verified_cams_Cons verified_cams_Nil split: verdict.splits bool.splits)

lemma scan_none:
  "verified_cams verify ref frames_dict = [] \<Longrightarrow>
     foldl (check_camera verify ref) a frames_dict = a"
proof (induction frames_dict arbitrary: a)
  case Nil
  show ?case by simp
next
  case (Cons p rest)
  obtain i fr where p: "p = (i, fr)" by (cases p)
  obtain c0 d0 f0 where a: "a = (c0, d0, f0)" by (cases a)
  from Cons.prems have "verified_cams verify ref rest = []"
    and "check_camera verify ref a p = a"
    by (auto simp: p a verified_cams_Cons split: verdict.splits bool.splits)
  with Cons.IH show ?case by simp
qed

lemma publish_none:
  "verified_cams verify (ref_img st) frames_dict = [] \<Longrightarrow>
     publish verify frames_dict st = st\<lparr>is_match := False, best_cam_index := - 1, distance := 10\<rparr>"
  by (simp add: publish_def check_every_camera_def scan_none acc_init_def)

lemma scan_char:
  assumes "sorted_wrt (<) (map fst frames_dict)"
    and "foldl (check_camera verify ref) (c0, d0, f0) frames_dict = (c, d, f)"
  shows "(d = d0 \<and> c = c0 \<and> (\<forall>(i, x) \<in> set (verified_cams verify ref frames_dict). d0 \<le> x)) \<or>
      (d < d0 \<and> (c, d) \<in> set (verified_cams verify ref frames_dict) \<and>
       (\<forall>(i, x) \<in> set (verified_cams verify ref frames_dict). d \<le> x \<and> (x = d \<longrightarrow> c \<le> i)))"
  using assms
proof (induction frames_dict arbitrary: c0 d0 f0)
  case Nil
  then show ?case by (simp add: verified_cams_Nil)
next
  case (Cons p rest)
  obtain i fr where p: "p = (i, fr)" by (cases p)
  have srt: "sorted_wrt (<) (map fst rest)" and low: "\<forall>j \<in> fst ` set rest. i < j"
    using Cons.prems(1) by (auto simp: p)
  have lowv: "\<forall>(j, x) \<in> set (verified_cams verify ref rest). i < j"
    using low verified_cams_keys[of _ _ verify ref rest] by fastforce
  show ?case
  proof (cases "verify fr ref")
    case Raised
    then have "foldl (check_camera verify ref) (c0, d0, f0) rest = (c, d, f)"
      using Cons.prems(2) by (simp add: p)
    from Cons.IH[OF srt this] show ?thesis
      by (simp add: p verified_cams_Cons Raised)
  next
    case (Result v x)
    show ?thesis
    proof (cases v)
      case False
      then have "foldl (check_camera verify ref) (c0, d0, f0) rest = (c, d, f)"
        using Cons.prems(2) by (simp add: p Result)
      from Cons.IH[OF srt this] show ?thesis
        by (simp add: p verified_cams_Cons Result False)
    next
      case True
      show ?thesis
      proof (cases "x < d0")
        case less: True
        then have "foldl (check_camera verify ref) (i, x, True) rest = (c, d, f)"
          using Cons.prems(2) by (simp add: p Result True)
        from Cons.IH[OF srt this] lowv less show ?thesis
          by (auto simp: p verified_cams_Cons Result True)
      next
        case geq: False
        then have "foldl (check_camera verify ref) (c0, d0, True) rest = (c, d, f)"
          using Cons.prems(2) by (simp add: p Result True)
        from Cons.IH[OF srt this] geq show ?thesis
          by (auto simp: p verified_cams_Cons Result True)
      qed
    qed
  qed
qed

lemma min_distance_eqI:
  assumes "(c, d) \<in> set vc" and "\<forall>(i, x) \<in> set vc. d \<le> x"
  shows "min_distance vc = d"
  unfolding min_distance_def
proof (rule Min_eqI)
  show "finite (set (map snd vc))" by simp
  show "d \<in> set (map snd vc)" using assms(1) by force
  fix y assume "y \<in> set (map snd vc)"
  then show "d \<le> y" using assms(2) by auto
qed

lemma min_distance_ge:
  assumes "vc \<noteq> []" and "\<forall>(i, x) \<in> set vc. b \<le> x"
  shows "b \<le> min_distance vc"
proof -
  have "Min (set (map snd vc)) \<in> set (map snd vc)"
    using assms(1) by (intro Min_in) auto
  then show ?thesis unfolding min_distance_def using assms(2) by auto
qed

lemma lowest_cam_at_eqI:
  assumes "(c, d) \<in> set vc" and "\<forall>(i, x) \<in> set vc. x = d \<longrightarrow> c \<le> i"
  shows "lowest_cam_at vc d = c"
  unfolding lowest_cam_at_def
proof (rule Min_eqI)
  show "finite (set (map fst (filter (\<lambda>p. snd p = d) vc)))" by simp
  show "c \<in> set (map fst (filter (\<lambda>p. snd p = d) vc))" using assms(1) by force
  fix y assume "y \<in> set (map fst (filter (\<lambda>p. snd p = d) vc))"
  then show "c \<le> y" using assms(2) by auto
qed

lemma publish_verified:
  assumes srt: "sorted_wrt (<) (map fst frames_dict)"
    and vc: "vc = verified_cams verify (ref_img st) frames_dict"
    and ne: "vc \<noteq> []"
  shows "publish verify frames_dict st =
     (if min_distance vc < 10
      then st\<lparr>is_match := True, best_cam_index := lowest_cam_at vc (min_distance vc),
              distance := min_distance vc\<rparr>
      else st\<lparr>is_match := True, best_cam_index := - 1, distance := 10\<rparr>)"
proof -
  obtain c d f where r: "foldl (check_camera verify (ref_img st)) (- 1, 10, False) frames_dict = (c, d, f)"
    by (metis prod_cases3)
  have f: "f" using scan_found[of verify "ref_img st" "- 1" 10 False frames_dict] ne
    by (simp add: r vc)
  have pub: "publish verify frames_dict st = st\<lparr>is_match := True, best_cam_index := c, distance := d\<rparr>"
    using f by (simp add: publish_def check_every_camera_def acc_init_def r)
  from scan_char[OF srt r] show ?thesis
  proof
    assume a: "d = 10 \<and> c = - 1 \<and> (\<forall>(i, x) \<in> set (verified_cams verify (ref_img st) frames_dict). 10 \<le> x)"
    then have "10 \<le> min_distance vc" using min_distance_ge[OF ne, of 10] by (simp add: vc)
    with a show ?thesis by (simp add: pub)
  next
    assume b: "d < 10 \<and> (c, d) \<in> set (verified_cams verify (ref_img st) frames_dict) \<and>
       (\<forall>(i, x) \<in> set (verified_cams verify (ref_img st) frames_dict). d \<le> x \<and> (x = d \<longrightarrow> c \<le> i))"
    then have m: "min_distance vc = d" using min_distance_eqI[of c d vc] by (auto simp: vc)
    from b have "lowest_cam_at vc d = c" using lowest_cam_at_eqI[of c d vc] by (auto simp: vc)
    with m b show ?thesis by (simp add: pub)
  qed
qed

subsection \<open>Capture\<close>

lemma capture_loop_keys:
  "sorted_wrt (<) (map fst (fst (capture_loop i cs))) \<and>
   (\<forall>k \<in> fst ` set (fst (capture_loop i cs)). int i \<le> k)"
proof (induction cs arbitrary: i)
  case Nil
  show ?case by simp
next
  case (Cons cap rest)
  from Cons.IH[of "Suc i"] show ?case
    by (auto simp: cap_read_def split: prod.splits option.splits) force+
qed

lemma capture_loop_sorted: "sorted_wrt (<) (map fst (fst (capture_loop i cs)))"
  using capture_loop_keys by blast

lemma capture_loop_nonneg: "(k, fr) \<in> set (fst (capture_loop i cs)) \<Longrightarrow> 0 \<le> k"
  using capture_loop_keys[of i cs] by force

lemma scan_filter_raised:
  "foldl (check_camera verify ref) a (filter (\<lambda>(i, frame). verify frame ref \<noteq> Raised) frames_dict) =
   foldl (check_camera verify ref) a frames_dict"
proof (induction frames_dict arbitrary: a)
  case Nil
  show ?case by simp
next
  case (Cons p rest)
  obtain i fr where p: "p = (i, fr)" by (cases p)
  obtain c0 d0 f0 where a: "a = (c0, d0, f0)" by (cases a)
  show ?case
    using Cons.IH by (cases "verify fr ref") (simp_all add: p a)
qed

lemma publish_filter_raised:
  "publish verify (filter (\<lambda>(i, frame). verify frame (ref_img st) \<noteq> Raised) frames_dict) st =
   publish verify frames_dict st"
  by (simp add: publish_def check_every_camera_def scan_filter_raised)

lemma lowest_cam_at_in:
  assumes "vc \<noteq> []"
  shows "(lowest_cam_at vc (min_distance vc), min_distance vc) \<in> set vc"
proof -
  have "Min (set (map snd vc)) \<in> set (map snd vc)"
    using assms by (intro Min_in) auto
  then obtain c where c: "(c, min_distance vc) \<in> set vc"
    unfolding min_distance_def by auto
  let ?l = "map fst (filter (\<lambda>p. snd p = min_distance vc) vc)"
  have "c \<in> set ?l" using c by force
  then have "Min (set ?l) \<in> set ?l" by (intro Min_in) auto
  then show ?thesis unfolding lowest_cam_at_def by auto
qed

subsection \<open>The concrete run\<close>

lemma scen_sys_valid_people: "valid_people scen_sys = [''A'', ''B'']"
  by (simp add: scen_sys_def startup_def)

lemma scen_sys_status:
  "people_status scen_sys =
     [''A'' \<mapsto> \<lparr>best_cam_index = - 1, distance = 10, is_match = False, ref_img = ''A.png''\<rparr>,
      ''B'' \<mapsto> \<lparr>best_cam_index = - 1, distance = 10, is_match = False, ref_img = ''B.png''\<rparr>]"
  by (simp add: scen_sys_def startup_def)

lemma scen_frames_capture: "scen_frames = fst (capture_loop 0 (caps scen_sys))"
  by (simp add: scen_frames_def scen_sys_def startup_def scen_camera_def cap_read_def)

lemma scen_vc_A: "verified_cams scen_verify ''A.png'' scen_frames = [(0, 0.2), (1, 0.35)]"
  by (simp add: verified_cams_def scen_verify_def scen_frames_def)

subsection \<open>The pass depends on the answers of the oracle only\<close>

lemma check_every_camera_cong:
  assumes "\<forall>(cam_idx, frame) \<in> set frames_dict. verify2 frame ref = verify1 frame ref"
  shows "check_every_camera verify2 ref frames_dict = check_every_camera verify1 ref frames_dict"
proof -
  have "foldl (check_camera verify2 ref) a frames_dict = foldl (check_camera verify1 ref) a frames_dict"
    for a
    using assms
  proof (induction frames_dict arbitrary: a)
    case Nil
    show ?case by simp
  next
    case (Cons p rest)
    obtain i fr where p: "p = (i, fr)" by (cases p)
    obtain c d f where a: "a = (c, d, f)" by (cases a)
    from Cons.prems have "verify2 fr ref = verify1 fr ref" by (simp add: p)
    then have "check_camera verify2 ref a p = check_camera verify1 ref a p" by (simp add: p a)
    with Cons show ?case by simp
  qed
  then show ?thesis by (simp add: check_every_camera_def)
qed

lemma publish_cong:
  assumes "ref_img st2 = ref_img st1"
    and "\<forall>(cam_idx, frame) \<in> set frames_dict. verify2 frame (ref_img st1) = verify1 frame (ref_img st1)"
  shows "publish verify2 frames_dict st2 = publish verify1 frames_dict st1"
  using check_every_camera_cong[of frames_dict verify2 "ref_img st1" verify1] assms
  by (cases st1; cases st2) (simp add: publish_def split: prod.splits)

section \<open>Properties of startup and of the main loop\<close>

subsection \<open>Startup\<close>

lemma load_references_valid:
  "set vp \<subseteq> dom ps \<Longrightarrow> load_references imread cfg (ps, vp) = (ps', vp') \<Longrightarrow> set vp' \<subseteq> dom ps'"
proof (induction cfg arbitrary: ps vp)
  case Nil
  then show ?case by simp
next
  case (Cons p rest)
  obtain n path where p: "p = (n, path)" by (cases p)
  show ?case
  proof (cases "imread path")
    case None
    with Cons show ?thesis by (simp add: p)
  next
    case (Some img)
    let ?ps1 = "ps(n \<mapsto> \<lparr>best_cam_index = - 1, distance = 10, is_match = False, ref_img = img\<rparr>)"
    have "set (vp @ [n]) \<subseteq> dom ?ps1" using Cons.prems(1) by auto
    moreover have "load_references imread rest (?ps1, vp @ [n]) = (ps', vp')"
      using Cons.prems(2) by (simp add: p Some)
    ultimately show ?thesis by (rule Cons.IH)
  qed
qed

lemma startup_valid:
  "set (valid_people (startup imread VideoCapture people_config camera_sources)) \<subseteq>
     dom (people_status (startup imread VideoCapture people_config camera_sources))"
proof -
  obtain ps vp where l: "load_references imread people_config (Map.empty, []) = (ps, vp)"
    by (cases "load_references imread people_config (Map.empty, [])")
  have "set vp \<subseteq> dom ps"
    using load_references_valid[OF _ l] by simp
  then show ?thesis by (simp add: startup_def l)
qed

lemma startup_fields:
  "caps (startup imread VideoCapture people_config camera_sources) = map VideoCapture camera_sources"
  "is_processing (startup imread VideoCapture people_config camera_sources) = False"
  "threads (startup imread VideoCapture people_config camera_sources) = []"
  "counter (startup imread VideoCapture people_config camera_sources) = 0"
  "pc (startup imread VideoCapture people_config camera_sources) = AtCapture"
  by (simp_all add: startup_def split: prod.splits)

lemma load_references_none:
  "\<forall>p \<in> set cfg. imread (snd p) = None \<Longrightarrow> load_references imread cfg (ps, vp) = (ps, vp)"
  by (induction cfg) auto

subsection \<open>Capture\<close>

lemma capture_loop_Cons:
  "capture_loop i (cap # rest) =
     ((case feed cap (cursor cap) of Some frame \<Rightarrow> [(int i, frame)] | None \<Rightarrow> []) @
        fst (capture_loop (Suc i) rest),
      cap\<lparr>cursor := Suc (cursor cap)\<rparr> # snd (capture_loop (Suc i) rest))"
  by (simp add: cap_read_def split: prod.splits)

lemma capture_loop_caps:
  "snd (capture_loop i cs) = map (\<lambda>c. c\<lparr>cursor := Suc (cursor c)\<rparr>) cs"
  by (induction cs arbitrary: i) (simp_all add: capture_loop_Cons del: capture_loop.simps(2))

lemma capture_loop_above:
  "(k, fr) \<in> set (fst (capture_loop i cs)) \<Longrightarrow> int i \<le> k"
  using capture_loop_keys[of i cs] by force

lemma capture_loop_head:
  "map_of (fst (capture_loop i (cap # rest))) (int i) = feed cap (cursor cap)"
proof (cases "feed cap (cursor cap)")
  case None
  have "map_of (fst (capture_loop (Suc i) rest)) (int i) = None"
  proof (rule ccontr)
    assume "map_of (fst (capture_loop (Suc i) rest)) (int i) \<noteq> None"
    then obtain fr where "(int i, fr) \<in> set (fst (capture_loop (Suc i) rest))"
      by (auto dest: map_of_SomeD)
    from capture_loop_above[OF this] show False by simp
  qed
  then show ?thesis by (simp add: capture_loop_Cons None del: capture_loop.simps(2))
next
  case (Some fr)
  then show ?thesis by (simp add: capture_loop_Cons del: capture_loop.simps(2))
qed

lemma capture_loop_never:
  "\<forall>c \<in> set cs. \<forall>k. feed c k = None \<Longrightarrow> fst (capture_loop i cs) = []"
  by (induction cs arbitrary: i) (simp_all add: capture_loop_Cons del: capture_loop.simps(2))

subsection \<open>Steps of the main thread\<close>

lemma capture_dispatch_no_caps: "caps s = [] \<Longrightarrow> capture_dispatch verify s = Inl IndexError"
  by (simp add: capture_dispatch_def)

lemma capture_dispatch_Inr:
  "caps s = cap0 # rest \<Longrightarrow> \<exists>s'. capture_dispatch verify s = Inr s'"
  by (simp add: capture_dispatch_def Let_def split: prod.splits del: capture_loop.simps)

lemma capture_dispatch_effect:
  assumes "capture_dispatch verify s = Inr s'"
  shows "\<exists>cap0 rest. caps s = cap0 # rest \<and>
     caps s' = cap0\<lparr>cursor := cursor cap0 + 2\<rparr> # map (\<lambda>c. c\<lparr>cursor := cursor c + 1\<rparr>) rest \<and>
     current_frames s' = fst (capture_loop 0 (cap0\<lparr>cursor := Suc (cursor cap0)\<rparr> # rest)) \<and>
     people_status s' = people_status s \<and> valid_people s' = valid_people s \<and>
     windows s' = windows s \<and>
     (if current_frames s' \<noteq> [] \<and> counter s mod 30 = 0 \<and> \<not> is_processing s
      then threads s' = threads s @ [pass_writes verify (current_frames s') (valid_people s) (people_status s)]
           \<and> is_processing s'
      else threads s' = threads s \<and> is_processing s' = is_processing s) \<and>
     counter s' = (if current_frames s' \<noteq> [] then counter s + 1 else counter s) \<and>
     pc s' = (if current_frames s' \<noteq> [] then AtPerson (valid_people s) else AtWaitKey)"
proof (cases "caps s")
  case Nil
  with assms show ?thesis by (simp add: capture_dispatch_def)
next
  case (Cons cap0 rest)
  obtain frames caps' where c: "capture_loop 0 (cap0\<lparr>cursor := Suc (cursor cap0)\<rparr> # rest) = (frames, caps')"
    by (cases "capture_loop 0 (cap0\<lparr>cursor := Suc (cursor cap0)\<rparr> # rest)")
  have caps': "caps' = cap0\<lparr>cursor := cursor cap0 + 2\<rparr> # map (\<lambda>c. c\<lparr>cursor := cursor c + 1\<rparr>) rest"
    using capture_loop_caps[of 0 "cap0\<lparr>cursor := Suc (cursor cap0)\<rparr> # rest"]
    by (simp add: c del: capture_loop.simps)
  show ?thesis
    using assms
    by (auto simp: capture_dispatch_def Cons cap_read_def c caps' Let_def
        simp del: capture_loop.simps split: if_splits)
qed

lemma main_step_capture: "pc s = AtCapture \<Longrightarrow> main_step verify s = capture_dispatch verify s"
  by (simp add: main_step_def)

lemma main_step_display:
  assumes "pc s \<noteq> AtCapture" and "main_step verify s = Inr s'"
  shows "people_status s' = people_status s \<and> valid_people s' = valid_people s \<and>
         caps s' = caps s \<and> current_frames s' = current_frames s \<and> counter s' = counter s \<and>
         threads s' = threads s \<and> is_processing s' = is_processing s"
proof (cases "pc s")
  case AtCapture
  with assms(1) show ?thesis by simp
next
  case (AtPerson ns)
  with assms(2) show ?thesis
    by (cases ns) (auto simp: main_step_def show_window_def split: option.splits if_splits)
next
  case (AtMembership n ns)
  with assms(2) show ?thesis
    by (auto simp: main_step_def show_window_def split: option.splits if_splits)
next
  case (AtCamIdx n ns)
  with assms(2) show ?thesis
    by (auto simp: main_step_def split: option.splits)
next
  case (AtDistance n ns c fr)
  with assms(2) show ?thesis
    by (auto simp: main_step_def show_window_def split: option.splits)
next
  case AtWaitKey
  with assms(2) show ?thesis by (auto simp: main_step_def)
qed

lemma main_step_effect:
  assumes "main_step verify s = Inr s'"
  shows "people_status s' = people_status s \<and> valid_people s' = valid_people s \<and>
     (if pc s = AtCapture \<and> current_frames s' \<noteq> [] \<and> counter s mod 30 = 0 \<and> \<not> is_processing s
      then threads s' = threads s @ [pass_writes verify (current_frames s') (valid_people s) (people_status s)]
           \<and> is_processing s'
      else threads s' = threads s \<and> is_processing s' = is_processing s)"
proof (cases "pc s = AtCapture")
  case True
  with assms have "capture_dispatch verify s = Inr s'" by (simp add: main_step_capture)
  from capture_dispatch_effect[OF this] True show ?thesis by auto
next
  case False
  from main_step_display[OF False assms] False show ?thesis by simp
qed

lemma main_step_caps_nonempty:
  assumes "caps s \<noteq> []" and "main_step verify s = Inr s'"
  shows "caps s' \<noteq> []"
proof (cases "pc s = AtCapture")
  case True
  with assms have "capture_dispatch verify s = Inr s'" by (simp add: main_step_capture)
  from capture_dispatch_effect[OF this] show ?thesis by auto
next
  case False
  from main_step_display[OF False assms(2)] assms(1) show ?thesis by simp
qed

subsection \<open>Steps of a worker thread\<close>

lemma worker_step_fields:
  "caps (worker_step i s) = caps s"
  "current_frames (worker_step i s) = current_frames s"
  "valid_people (worker_step i s) = valid_people s"
  "counter (worker_step i s) = counter s"
  "windows (worker_step i s) = windows s"
  "pc (worker_step i s) = pc s"
  by (simp_all add: worker_step_def split: list.splits)



subsection \<open>Runs\<close>

lemma run_events_Nil: "run_events verify [] s = Running s"
  by (simp add: run_events_def)

lemma run_events_snoc:
  "run_events verify (evs @ [ev]) s = sys_step verify (run_events verify evs s) ev"
  by (simp add: run_events_def)

lemma run_events_Cons:
  "run_events verify (ev # evs) s = foldl (sys_step verify) (sys_step verify (Running s) ev) evs"
  by (simp add: run_events_def)


lemma crashed_absorbing: "foldl (sys_step verify) (Crashed e) evs = Crashed e"
  by (induction evs) simp_all

lemma quit_absorbing: "foldl (sys_step verify) (Quit s) evs = Quit s"
  by (induction evs) simp_all

lemma run_events_invariant:
  assumes init: "P s0"
    and main: "\<And>s s'. P s \<Longrightarrow> main_step verify s = Inr s' \<Longrightarrow> P s'"
    and work: "\<And>s i. P s \<Longrightarrow> P (worker_step i s)"
  shows "case run_events verify evs s0 of Running s \<Rightarrow> P s | Quit s \<Rightarrow> P s | Crashed e \<Rightarrow> True"
proof (induction evs rule: rev_induct)
  case Nil
  show ?case by (simp add: run_events_Nil init)
next
  case (snoc ev evs)
  show ?case
  proof (cases "run_events verify evs s0")
    case (Running s)
    with snoc have P: "P s" by simp
    show ?thesis
    proof (cases ev)
      case (MainStep q)
      show ?thesis
        using main[OF P]
        by (cases "main_step verify s") (simp_all add: run_events_snoc Running MainStep)
    next
      case (WorkerStep i)
      show ?thesis using work[OF P, of i] by (simp add: run_events_snoc Running WorkerStep)
    qed
  next
    case (Crashed e)
    then show ?thesis by (simp add: run_events_snoc)
  next
    case (Quit s)
    with snoc show ?thesis by (simp add: run_events_snoc)
  qed
qed

lemma run_events_no_crash:
  assumes init: "P s0"
    and main: "\<And>s s'. P s \<Longrightarrow> main_step verify s = Inr s' \<Longrightarrow> P s'"
    and work: "\<And>s i. P s \<Longrightarrow> P (worker_step i s)"
    and live: "\<And>s. P s \<Longrightarrow> \<exists>s'. main_step verify s = Inr s'"
  shows "run_events verify evs s0 \<noteq> Crashed e"
proof (induction evs arbitrary: e rule: rev_induct)
  case Nil
  show ?case by (simp add: run_events_Nil)
next
  case (snoc ev evs)
  show ?case
  proof (cases "run_events verify evs s0")
    case (Running s)
    have "P s"
      using run_events_invariant[of P s0 verify evs, OF init main work] by (simp add: Running)
    from live[OF this] obtain s' where s': "main_step verify s = Inr s'" by blast
    show ?thesis
      by (cases ev) (simp_all add: run_events_snoc Running s')
  next
    case (Crashed e')
    with snoc[of e'] show ?thesis by simp
  next
    case (Quit s)
    then show ?thesis by (simp add: run_events_snoc)
  qed
qed

lemma run_events_no_quit:
  "MainStep True \<notin> set evs \<Longrightarrow> run_events verify evs s0 \<noteq> Quit s"
proof (induction evs rule: rev_induct)
  case Nil
  show ?case by (simp add: run_events_Nil)
next
  case (snoc ev evs)
  then have ih: "run_events verify evs s0 \<noteq> Quit s" and ev: "ev \<noteq> MainStep True"
    by auto
  show ?case
  proof (cases "run_events verify evs s0")
    case (Running s1)
    show ?thesis
      using ev
      by (cases ev; cases "main_step verify s1") (auto simp: run_events_snoc Running)
  next
    case (Crashed e')
    then show ?thesis by (simp add: run_events_snoc)
  next
    case (Quit s1)
    with ih show ?thesis by (simp add: run_events_snoc)
  qed
qed

subsection \<open>A process that shows nobody\<close>

lemma worker_step_quiet: "quiet s \<Longrightarrow> quiet (worker_step i s)"
  by (simp add: quiet_def never_on_def worker_step_fields)

lemma main_step_quiet:
  assumes "quiet s"
  shows "\<exists>s'. main_step verify s = Inr s' \<and> quiet s'"
proof -
  from assms have ne: "caps s \<noteq> []" and who: "valid_people s = [] \<or> never_on s"
    and at: "pc s = AtCapture \<or> pc s = AtWaitKey \<or> pc s = AtPerson []"
    by (simp_all add: quiet_def)
  from at show ?thesis
  proof (elim disjE)
    assume p: "pc s = AtCapture"
    from ne obtain cap0 rest where c: "caps s = cap0 # rest" by (cases "caps s") auto
    obtain s' where s': "capture_dispatch verify s = Inr s'"
      using capture_dispatch_Inr[OF c] by blast
    from capture_dispatch_effect[OF s'] c have
      c': "caps s' = cap0\<lparr>cursor := cursor cap0 + 2\<rparr> # map (\<lambda>c. c\<lparr>cursor := cursor c + 1\<rparr>) rest"
      and f: "current_frames s' = fst (capture_loop 0 (cap0\<lparr>cursor := Suc (cursor cap0)\<rparr> # rest))"
      and vp: "valid_people s' = valid_people s"
      and pc': "pc s' = (if current_frames s' \<noteq> [] then AtPerson (valid_people s) else AtWaitKey)"
      by auto
    have "valid_people s' = [] \<or> never_on s'"
      using who by (auto simp: vp never_on_def c c')
    moreover have "pc s' = AtWaitKey \<or> pc s' = AtPerson []"
    proof (cases "never_on s")
      case True
      then have "current_frames s' = []"
        unfolding f by (intro capture_loop_never) (auto simp: never_on_def c)
      then show ?thesis by (simp add: pc')
    next
      case False
      with who have "valid_people s = []" by simp
      then show ?thesis by (simp add: pc')
    qed
    ultimately have "quiet s'" by (auto simp: quiet_def c')
    with s' p show ?thesis by (simp add: main_step_capture)
  next
    assume "pc s = AtWaitKey"
    with assms show ?thesis by (simp add: main_step_def quiet_def never_on_def)
  next
    assume "pc s = AtPerson []"
    with assms show ?thesis by (simp add: main_step_def quiet_def never_on_def)
  qed
qed


subsection \<open>Iterations that show nobody as matched\<close>







lemma startup_quiet:
  assumes "camera_sources \<noteq> []"
    and "(\<forall>p \<in> set people_config. imread (snd p) = None) \<or>
         (\<forall>src \<in> set camera_sources. \<forall>k. feed (VideoCapture src) k = None)"
  shows "quiet (startup imread VideoCapture people_config camera_sources)"
proof -
  let ?s0 = "startup imread VideoCapture people_config camera_sources"
  have "valid_people ?s0 = [] \<or> never_on ?s0"
    using assms(2)
  proof
    assume "\<forall>p \<in> set people_config. imread (snd p) = None"
    from load_references_none[OF this] have "valid_people ?s0 = []"
      by (simp add: startup_def)
    then show ?thesis by simp
  next
    assume "\<forall>src \<in> set camera_sources. \<forall>k. feed (VideoCapture src) k = None"
    then have "never_on ?s0" by (simp add: never_on_def startup_fields)
    then show ?thesis by simp
  qed
  then show ?thesis using assms(1) by (simp add: quiet_def startup_fields)
qed

section \<open>Properties of the writes of a pass\<close>

lemma apply_write_dom: "dom (apply_write ps w) = dom ps"
  by (cases w) (auto split: option.splits)

lemma person_writes_publish:
  "person_writes verify frames_dict n st =
     [SetMatch n (is_match (publish verify frames_dict st)),
      SetCam n (best_cam_index (publish verify frames_dict st)),
      SetDist n (distance (publish verify frames_dict st))]"
  by (simp add: person_writes_def publish_def split: prod.splits)

lemma publish_as_updates:
  "publish verify frames_dict st =
     st\<lparr>is_match := is_match (publish verify frames_dict st),
        best_cam_index := best_cam_index (publish verify frames_dict st),
        distance := distance (publish verify frames_dict st)\<rparr>"
  by (simp add: publish_def split: prod.splits)

lemma person_writes_run:
  "ps n = Some st \<Longrightarrow>
     foldl apply_write ps (person_writes verify frames_dict n st) =
       ps(n \<mapsto> publish verify frames_dict st)"
  by (simp add: person_writes_def publish_def split: prod.splits)

lemma pass_writes_cong:
  "\<forall>n. map_option ref_img (ps n) = map_option ref_img (ps' n) \<Longrightarrow>
     pass_writes verify frames_dict vp ps = pass_writes verify frames_dict vp ps'"
proof (induction vp)
  case Nil
  show ?case by simp
next
  case (Cons a ns)
  from Cons.prems have a: "map_option ref_img (ps a) = map_option ref_img (ps' a)" by blast
  show ?case
  proof (cases "ps a")
    case None
    with a have "ps' a = None" by simp
    with None show ?thesis by simp
  next
    case (Some st)
    with a obtain st' where st': "ps' a = Some st'" "ref_img st' = ref_img st"
      by (cases "ps' a") auto
    have "person_writes verify frames_dict a st' = person_writes verify frames_dict a st"
      by (simp add: person_writes_def st'(2))
    with Cons.IH[OF Cons.prems] show ?thesis by (simp add: Some st'(1))
  qed
qed

lemma pass_writes_after_person:
  "ps a = Some st \<Longrightarrow>
     pass_writes verify frames_dict vp (ps(a \<mapsto> publish verify frames_dict st)) =
     pass_writes verify frames_dict vp ps"
  by (rule pass_writes_cong) (simp add: publish_ref_img)

lemma pass_writes_run:
  "foldl apply_write ps (pass_writes verify frames_dict vp ps) = pass_loop verify frames_dict vp ps"
proof (induction vp arbitrary: ps)
  case Nil
  show ?case by simp
next
  case (Cons a ns)
  show ?case
  proof (cases "ps a")
    case None
    then show ?thesis by (simp add: process_person_def)
  next
    case (Some st)
    let ?ps1 = "ps(a \<mapsto> publish verify frames_dict st)"
    have "foldl apply_write ps (pass_writes verify frames_dict (a # ns) ps) =
          foldl apply_write ?ps1 (pass_writes verify frames_dict ns ps)"
      by (simp add: Some person_writes_run del: apply_write.simps)
    also have "\<dots> = foldl apply_write ?ps1 (pass_writes verify frames_dict ns ?ps1)"
      using pass_writes_after_person[of ps a st verify frames_dict ns] by (simp add: Some)
    also have "\<dots> = pass_loop verify frames_dict ns ?ps1" by (rule Cons.IH)
    finally show ?thesis by (simp add: process_person_def Some)
  qed
qed

lemma mid_pass_all:
  "length (pass_writes verify frames_dict vp ps) \<le> k \<Longrightarrow>
     mid_pass verify frames_dict vp ps k = pass_loop verify frames_dict vp ps"
  by (simp add: mid_pass_def pass_writes_run)

lemma partly_published_of_published:
  "partly_published verify frames_dict (publish verify frames_dict st) m \<Longrightarrow>
     m = publish verify frames_dict st"
  by (auto simp: partly_published_def publish_idem)

lemma mid_pass_Cons_early:
  assumes "ps a = Some st" and "k < 3"
  shows "mid_pass verify frames_dict (a # ns) ps k =
     ps(a \<mapsto> (if k = 0 then st
               else if k = 1 then st\<lparr>is_match := is_match (publish verify frames_dict st)\<rparr>
               else st\<lparr>is_match := is_match (publish verify frames_dict st),
                       best_cam_index := best_cam_index (publish verify frames_dict st)\<rparr>))"
proof -
  from assms(2) consider "k = 0" | "k = 1" | "k = 2" by linarith
  then show ?thesis
  proof cases
    case 1
    then show ?thesis using assms(1) by (auto simp: mid_pass_def)
  next
    case 2
    then show ?thesis using assms(1) by (simp add: mid_pass_def person_writes_publish)
  next
    case 3
    then show ?thesis
      using assms(1) by (simp add: mid_pass_def person_writes_publish numeral_2_eq_2)
  qed
qed

lemma mid_pass_Cons_late:
  assumes "ps a = Some st" and "3 \<le> k"
  shows "mid_pass verify frames_dict (a # ns) ps k =
     mid_pass verify frames_dict ns (ps(a \<mapsto> publish verify frames_dict st)) (k - 3)"
proof -
  have l: "length (person_writes verify frames_dict a st) = 3"
    by (simp add: person_writes_publish)
  have "take k (person_writes verify frames_dict a st) = person_writes verify frames_dict a st"
    using assms(2) by (simp add: l)
  then show ?thesis
    using assms(1)
    by (simp add: mid_pass_def l person_writes_run pass_writes_after_person del: apply_write.simps)
qed

lemma mid_pass_forms:
  "ps n = Some st \<Longrightarrow>
     \<exists>m. mid_pass verify frames_dict vp ps k n = Some m \<and> partly_published verify frames_dict st m"
proof (induction vp arbitrary: ps k st)
  case Nil
  then show ?case by (simp add: mid_pass_def partly_published_def)
next
  case (Cons a ns)
  show ?case
  proof (cases "ps a")
    case None
    with Cons.prems show ?thesis by (simp add: mid_pass_def partly_published_def)
  next
    case (Some sa)
    show ?thesis
    proof (cases "k < 3")
      case True
      show ?thesis
        using Cons.prems Some
        using mid_pass_Cons_early[of ps a sa k verify frames_dict ns]
        by (cases "n = a") (auto simp: True partly_published_def)
    next
      case False
      then have k: "3 \<le> k" by simp
      let ?ps1 = "ps(a \<mapsto> publish verify frames_dict sa)"
      have eq: "mid_pass verify frames_dict (a # ns) ps k =
                mid_pass verify frames_dict ns ?ps1 (k - 3)"
        using mid_pass_Cons_late[of ps a sa k verify frames_dict ns] Some k by blast
      show ?thesis
      proof (cases "n = a")
        case True
        then have p1: "?ps1 n = Some (publish verify frames_dict sa)" by simp
        have "\<exists>m. mid_pass verify frames_dict ns ?ps1 (k - 3) n = Some m \<and>
                partly_published verify frames_dict (publish verify frames_dict sa) m"
          using Cons.IH[of ?ps1 "publish verify frames_dict sa" "k - 3"] p1 by blast
        then obtain m where
          m: "mid_pass verify frames_dict ns ?ps1 (k - 3) n = Some m"
             "partly_published verify frames_dict (publish verify frames_dict sa) m"
          by blast
        have "m = publish verify frames_dict sa"
          using m(2) by (rule partly_published_of_published)
        moreover have "sa = st" using Cons.prems Some True by simp
        ultimately have "partly_published verify frames_dict st m"
          by (simp add: partly_published_def)
        with m(1) show ?thesis unfolding eq by blast
      next
        case False
        then have p1: "?ps1 n = Some st" using Cons.prems by simp
        show ?thesis
          unfolding eq using Cons.IH[of ?ps1 st "k - 3"] p1 by blast
      qed
    qed
  qed
qed

lemma mid_pass_dom: "dom (mid_pass verify frames_dict vp ps k) = dom ps"
proof -
  have "dom (foldl apply_write ps ws) = dom ps" for ws
    by (induction ws arbitrary: ps) (simp_all add: apply_write_dom)
  then show ?thesis by (simp add: mid_pass_def)
qed

lemma mid_pass_forms_of:
  assumes "mid_pass verify frames_dict vp ps k n = Some m"
  shows "\<exists>st. ps n = Some st \<and> partly_published verify frames_dict st m"
proof -
  have "n \<in> dom ps" using assms mid_pass_dom[of verify frames_dict vp ps k] by blast
  then obtain st where st: "ps n = Some st" by blast
  from mid_pass_forms[of ps n st verify frames_dict vp k, OF st] assms show ?thesis
    using st by auto
qed

lemma partly_published_fields:
  assumes "partly_published verify frames_dict st m"
  shows "ref_img m = ref_img st"
    and "best_cam_index m = best_cam_index st \<or>
         best_cam_index m = best_cam_index (publish verify frames_dict st)"
    and "distance m = distance st \<or> distance m = distance (publish verify frames_dict st)"
    and "is_match m = is_match st \<or> is_match m = is_match (publish verify frames_dict st)"
  using assms by (auto simp: partly_published_def publish_ref_img)

lemma worker_steps_snoc:
  "worker_steps (evs @ [ev]) = worker_steps evs + (if ev = WorkerStep 0 then 1 else 0)"
  by (simp add: worker_steps_def)

lemma mid_pass_Suc:
  assumes "k < length (pass_writes verify frames_dict vp ps)"
  shows "mid_pass verify frames_dict vp ps (Suc k) =
     apply_write (mid_pass verify frames_dict vp ps k) (pass_writes verify frames_dict vp ps ! k)"
  using assms by (simp add: mid_pass_def take_Suc_conv_app_nth)

lemma main_step_cam_idx_read:
  assumes step: "main_step verify' s = Inr s'"
    and forms: "\<And>n m. people_status s n = Some m \<Longrightarrow>
                  \<exists>st. ps0 n = Some st \<and> partly_published verify frames_dict st m"
  shows "cam_idx_read verify frames_dict ps0 (pc s')"
proof (cases "pc s")
  case AtCapture
  with step have "capture_dispatch verify' s = Inr s'" by (simp add: main_step_capture)
  from capture_dispatch_effect[OF this] show ?thesis by (auto simp: cam_idx_read_def)
next
  case (AtPerson ns)
  with step show ?thesis
    by (cases ns)
       (auto simp: main_step_def show_window_def cam_idx_read_def split: option.splits if_splits)
next
  case (AtMembership n ns)
  with step show ?thesis
    by (auto simp: main_step_def show_window_def cam_idx_read_def split: option.splits if_splits)
next
  case (AtCamIdx n ns)
  with step obtain m fr where m: "people_status s n = Some m"
    and s': "s' = s\<lparr>pc := AtDistance n ns (best_cam_index m) fr\<rparr>"
    by (auto simp: main_step_def split: option.splits)
  from forms[OF m] obtain st where "ps0 n = Some st" "partly_published verify frames_dict st m"
    by blast
  then show ?thesis
    using partly_published_fields(2)[of verify frames_dict st m]
    by (simp add: s' cam_idx_read_def)
next
  case (AtDistance n ns c fr)
  with step show ?thesis
    by (auto simp: main_step_def show_window_def cam_idx_read_def split: option.splits)
next
  case AtWaitKey
  with step show ?thesis by (auto simp: main_step_def cam_idx_read_def)
qed

lemma pass_in_flight:
  assumes t: "threads s1 = [pass_writes verify frames_dict (valid_people s1) (people_status s1)]"
    and p: "is_processing s1"
    and c: "cam_idx_read verify frames_dict (people_status s1) (pc s1)"
    and r: "run_events verify evs s1 = Running s2"
    and j: "worker_steps evs \<le> length (pass_writes verify frames_dict (valid_people s1) (people_status s1))"
  shows "threads s2 = [drop (worker_steps evs)
            (pass_writes verify frames_dict (valid_people s1) (people_status s1))] \<and>
         is_processing s2 \<and> valid_people s2 = valid_people s1 \<and>
         people_status s2 =
           mid_pass verify frames_dict (valid_people s1) (people_status s1) (worker_steps evs) \<and>
         cam_idx_read verify frames_dict (people_status s1) (pc s2)"
  using r j
proof (induction evs arbitrary: s2 rule: rev_induct)
  case Nil
  then have "s2 = s1" by (simp add: run_events_Nil)
  then show ?case using t p c by (simp add: worker_steps_def mid_pass_def)
next
  case (snoc ev evs)
  let ?W = "pass_writes verify frames_dict (valid_people s1) (people_status s1)"
  let ?j = "worker_steps evs"
  from snoc.prems(2) have j': "?j \<le> length ?W" by (simp add: worker_steps_snoc split: if_splits)
  from snoc.prems(1) obtain s where run: "run_events verify evs s1 = Running s"
    by (cases "run_events verify evs s1") (simp_all add: run_events_snoc)
  from snoc.IH[OF run j'] have
    th: "threads s = [drop ?j ?W]" and pr: "is_processing s"
    and vp: "valid_people s = valid_people s1"
    and ps: "people_status s = mid_pass verify frames_dict (valid_people s1) (people_status s1) ?j"
    and ci: "cam_idx_read verify frames_dict (people_status s1) (pc s)"
    by simp_all
  have step: "sys_step verify (Running s) ev = Running s2"
    using snoc.prems(1) by (simp add: run_events_snoc run)
  show ?case
  proof (cases ev)
    case (MainStep q)
    from step have m: "main_step verify s = Inr s2"
      by (cases "main_step verify s") (simp_all add: MainStep split: if_splits)
    have "cam_idx_read verify frames_dict (people_status s1) (pc s2)"
      using m
    proof (rule main_step_cam_idx_read)
      fix n m
      assume "people_status s n = Some m"
      then show "\<exists>st. people_status s1 n = Some st \<and> partly_published verify frames_dict st m"
        unfolding ps by (rule mid_pass_forms_of)
    qed
    with main_step_effect[OF m] pr th vp ps show ?thesis
      by (auto simp: worker_steps_snoc MainStep)
  next
    case (WorkerStep i)
    show ?thesis
    proof (cases i)
      case 0
      then have lt: "?j < length ?W" using snoc.prems(2) by (simp add: worker_steps_snoc WorkerStep)
      then have d: "drop ?j ?W = ?W ! ?j # drop (Suc ?j) ?W"
        by (simp add: Cons_nth_drop_Suc)
      have "s2 = worker_step 0 s" using step by (simp add: WorkerStep 0)
      then show ?thesis
        using mid_pass_Suc[OF lt] pr vp ps ci
        by (simp add: worker_step_def th d worker_steps_snoc WorkerStep 0)
    next
      case (Suc i')
      have "s2 = worker_step (Suc i') s" using step by (simp add: WorkerStep Suc)
      then show ?thesis
        using pr vp ps th ci by (simp add: worker_step_def worker_steps_snoc WorkerStep Suc)
    qed
  qed
qed


section \<open>The concrete runs\<close>




lemma scen_first_step:
  "\<exists>s1. main_step scen_verify scen_sys = Inr s1 \<and> is_processing s1 \<and>
      current_frames s1 = scen_frames"
  by (simp add: main_step_def capture_dispatch_def scen_sys_def startup_def scen_camera_def
      cap_read_def Let_def scen_frames_def)

text \<open>
  The race of lines 163 to 166: the worker writes \<open>best_cam_index = -1\<close> after the main
  thread found the old index among the keys of \<open>current_frames\<close>, and line 166 raises.
\<close>

lemma race_key_error:
  "run_events scen_verify [WorkerStep 0, MainStep False] race_sys = Crashed KeyError"
  by (simp add: run_events_def worker_step_def main_step_def race_sys_def scen_frames_def)

lemma prior_sys_status:
  "people_status prior_sys =
     [''A'' \<mapsto> \<lparr>best_cam_index = 1, distance = 0.35, is_match = True, ref_img = ''A.png''\<rparr>,
      ''B'' \<mapsto> \<lparr>best_cam_index = - 1, distance = 10, is_match = False, ref_img = ''B.png''\<rparr>]"
  by (rule ext)
     (simp add: prior_sys_def process_multi_camera_def scen_sys_valid_people scen_sys_status
       process_person_def publish_def check_every_camera_def acc_init_def err_verify_def
       scen_frames_def)

lemma prior_sys_valid_people: "valid_people prior_sys = [''A'', ''B'']"
  by (simp add: prior_sys_def process_multi_camera_def scen_sys_valid_people)

section \<open>The claims\<close>

text \<open>
  C1, as the code has it. For a person of \<open>valid_people\<close> with at least one verified
  camera in the snapshot of a tick: when the smallest verified distance is below the
  initial value 10.0 of \<open>current_best_dist\<close>, the pass publishes that distance and the
  lowest camera index that achieves it; when no verified distance is below 10.0, the
  comparison \<open>distance < current_best_dist\<close> never succeeds and the pass publishes
  distance 10.0 and camera index -1. In both cases \<open>is_match\<close> is true. The snapshot of a
  tick lists the cameras in ascending index (lemma \<open>capture_loop_sorted\<close>).
\<close>

theorem best_camera_below_sentinel:
  assumes "set (valid_people s) \<subseteq> dom (people_status s)"
    and "n \<in> set (valid_people s)"
    and "people_status s n = Some st"
    and "frames_dict = fst (capture_loop 0 cs)"
    and "vc = verified_cams verify (ref_img st) frames_dict"
    and "vc \<noteq> []"
  shows "people_status (process_multi_camera verify frames_dict s) n =
     Some (if min_distance vc < 10
           then st\<lparr>is_match := True, best_cam_index := lowest_cam_at vc (min_distance vc),
                   distance := min_distance vc\<rparr>
           else st\<lparr>is_match := True, best_cam_index := - 1, distance := 10\<rparr>)"
proof -
  have "sorted_wrt (<) (map fst frames_dict)"
    using assms(4) by (simp add: capture_loop_sorted)
  from publish_verified[OF this assms(5) assms(6)] assms(1,2,3) show ?thesis
    by (simp add: process_multi_camera_def pass_loop_valid)
qed

theorem best_camera_below_sentinel_witness:
  "set (valid_people scen_sys) \<subseteq> dom (people_status scen_sys) \<and>
   ''A'' \<in> set (valid_people scen_sys) \<and>
   people_status scen_sys ''A'' =
     Some \<lparr>best_cam_index = - 1, distance = 10, is_match = False, ref_img = ''A.png''\<rparr> \<and>
   scen_frames = fst (capture_loop 0 (caps scen_sys)) \<and>
   verified_cams scen_verify ''A.png'' scen_frames = [(0, 0.2), (1, 0.35)] \<and>
   people_status (process_multi_camera scen_verify scen_frames scen_sys) ''A'' =
     Some \<lparr>best_cam_index = 0, distance = 0.2, is_match = True, ref_img = ''A.png''\<rparr>"
  using best_camera_below_sentinel [of scen_sys "''A''"
      "\<lparr>best_cam_index = - 1, distance = 10, is_match = False, ref_img = ''A.png''\<rparr>"
      scen_frames "caps scen_sys" "[(0, 0.2), (1, 0.35)]" scen_verify]
    scen_frames_capture
  by (simp add: scen_sys_valid_people scen_sys_status scen_vc_A min_distance_def lowest_cam_at_def)

text \<open>
  C1 as stated fails: camera 0 verifies A at distance 12, the only verified camera, and
  the pass publishes distance 10.0 and camera index -1.
\<close>

theorem best_camera_counterexample:
  "scen_frames = fst (capture_loop 0 (caps scen_sys)) \<and>
   ''A'' \<in> set (valid_people scen_sys) \<and>
   verified_cams far_verify ''A.png'' scen_frames = [(0, 12)] \<and>
   people_status (process_multi_camera far_verify scen_frames scen_sys) ''A'' =
     Some \<lparr>best_cam_index = - 1, distance = 10, is_match = True, ref_img = ''A.png''\<rparr> \<and>
   distance (the (people_status (process_multi_camera far_verify scen_frames scen_sys) ''A'')) \<noteq>
     min_distance (verified_cams far_verify ''A.png'' scen_frames) \<and>
   best_cam_index (the (people_status (process_multi_camera far_verify scen_frames scen_sys) ''A'')) \<noteq>
     lowest_cam_at (verified_cams far_verify ''A.png'' scen_frames)
       (min_distance (verified_cams far_verify ''A.png'' scen_frames))"
proof -
  have vc: "verified_cams far_verify ''A.png'' scen_frames = [(0, 12)]"
    by (simp add: verified_cams_def far_verify_def scen_frames_def)
  have st: "people_status (process_multi_camera far_verify scen_frames scen_sys) ''A'' =
     Some \<lparr>best_cam_index = - 1, distance = 10, is_match = True, ref_img = ''A.png''\<rparr>"
    by (simp add: process_multi_camera_def scen_sys_valid_people scen_sys_status process_person_def
        publish_def check_every_camera_def acc_init_def far_verify_def scen_frames_def)
  show ?thesis
    using scen_frames_capture
    by (simp add: vc st scen_sys_valid_people min_distance_def lowest_cam_at_def)
qed

text \<open>
  C2, as the code has it. After a pass on the snapshot of a tick, for every person of
  \<open>valid_people\<close>: if \<open>is_match\<close> is true, some camera was verified, and either the
  smallest verified distance is below 10.0, the camera index is at least 0 and the
  published distance is that minimum, or no verified distance is below 10.0 and the
  published values are -1 and 10.0; if \<open>is_match\<close> is false, no camera was verified,
  the camera index is -1 and the distance 10.0.
\<close>

theorem match_flag_invariant:
  assumes "set (valid_people s) \<subseteq> dom (people_status s)"
    and "n \<in> set (valid_people s)"
    and "people_status s n = Some st"
    and "frames_dict = fst (capture_loop 0 cs)"
    and "vc = verified_cams verify (ref_img st) frames_dict"
    and "people_status (process_multi_camera verify frames_dict s) n = Some st'"
  shows "(is_match st' \<longrightarrow> vc \<noteq> [] \<and>
            (if min_distance vc < 10
             then 0 \<le> best_cam_index st' \<and> distance st' = min_distance vc
             else best_cam_index st' = - 1 \<and> distance st' = 10)) \<and>
         (\<not> is_match st' \<longrightarrow> vc = [] \<and> best_cam_index st' = - 1 \<and> distance st' = 10)"
proof -
  have st': "st' = publish verify frames_dict st"
    using assms(1,2,3,6) by (simp add: process_multi_camera_def pass_loop_valid)
  show ?thesis
  proof (cases "vc = []")
    case True
    then show ?thesis using assms(5) by (simp add: st' publish_none)
  next
    case False
    have srt: "sorted_wrt (<) (map fst frames_dict)"
      using assms(4) by (simp add: capture_loop_sorted)
    have "(lowest_cam_at vc (min_distance vc), min_distance vc) \<in> set vc"
      using False by (rule lowest_cam_at_in)
    then have "lowest_cam_at vc (min_distance vc) \<in> fst ` set frames_dict"
      unfolding assms(5) by (rule verified_cams_keys)
    then have "0 \<le> lowest_cam_at vc (min_distance vc)"
      unfolding assms(4) using capture_loop_nonneg by fastforce
    then show ?thesis
      using False by (simp add: st' publish_verified[OF srt assms(5) False])
  qed
qed

theorem match_flag_invariant_witness:
  "set (valid_people scen_sys) \<subseteq> dom (people_status scen_sys) \<and>
   ''A'' \<in> set (valid_people scen_sys) \<and>
   people_status scen_sys ''A'' =
     Some \<lparr>best_cam_index = - 1, distance = 10, is_match = False, ref_img = ''A.png''\<rparr> \<and>
   scen_frames = fst (capture_loop 0 (caps scen_sys)) \<and>
   people_status (process_multi_camera scen_verify scen_frames scen_sys) ''A'' =
     Some \<lparr>best_cam_index = 0, distance = 0.2, is_match = True, ref_img = ''A.png''\<rparr> \<and>
   verified_cams scen_verify ''A.png'' scen_frames \<noteq> [] \<and>
   min_distance (verified_cams scen_verify ''A.png'' scen_frames) < 10 \<and>
   (0::int) \<le> 0 \<and> (0.2::real) = min_distance (verified_cams scen_verify ''A.png'' scen_frames)"
proof -
  have st: "people_status (process_multi_camera scen_verify scen_frames scen_sys) ''A'' =
     Some \<lparr>best_cam_index = 0, distance = 0.2, is_match = True, ref_img = ''A.png''\<rparr>"
    by (simp add: process_multi_camera_def scen_sys_valid_people scen_sys_status process_person_def
        publish_def check_every_camera_def acc_init_def scen_verify_def scen_frames_def)
  have wf: "set (valid_people scen_sys) \<subseteq> dom (people_status scen_sys)"
    by (simp add: scen_sys_valid_people scen_sys_status)
  have mem: "''A'' \<in> set (valid_people scen_sys)"
    by (simp add: scen_sys_valid_people)
  have before: "people_status scen_sys ''A'' =
     Some \<lparr>best_cam_index = - 1, distance = 10, is_match = False, ref_img = ''A.png''\<rparr>"
    by (simp add: scen_sys_status)
  have lt: "min_distance (verified_cams scen_verify ''A.png'' scen_frames) < 10"
    by (simp add: scen_vc_A min_distance_def)
  from match_flag_invariant [of scen_sys "''A''"
      "\<lparr>best_cam_index = - 1, distance = 10, is_match = False, ref_img = ''A.png''\<rparr>"
      scen_frames "caps scen_sys" "verified_cams scen_verify ''A.png'' scen_frames" scen_verify
      "\<lparr>best_cam_index = 0, distance = 0.2, is_match = True, ref_img = ''A.png''\<rparr>"]
  show ?thesis using wf mem before scen_frames_capture st lt by simp
qed

text \<open>
  C2 as stated fails: camera 1 verifies A at distance exactly 10.0; \<open>is_match\<close> is
  published true with camera index -1.
\<close>

theorem match_flag_counterexample:
  "scen_frames = fst (capture_loop 0 (caps scen_sys)) \<and>
   ''A'' \<in> set (valid_people scen_sys) \<and>
   verified_cams edge_verify ''A.png'' scen_frames = [(1, 10)] \<and>
   people_status (process_multi_camera edge_verify scen_frames scen_sys) ''A'' =
     Some \<lparr>best_cam_index = - 1, distance = 10, is_match = True, ref_img = ''A.png''\<rparr> \<and>
   is_match (the (people_status (process_multi_camera edge_verify scen_frames scen_sys) ''A'')) \<and>
   \<not> 0 \<le> best_cam_index (the (people_status (process_multi_camera edge_verify scen_frames scen_sys) ''A''))"
proof -
  have vc: "verified_cams edge_verify ''A.png'' scen_frames = [(1, 10)]"
    by (simp add: verified_cams_def edge_verify_def scen_frames_def)
  have st: "people_status (process_multi_camera edge_verify scen_frames scen_sys) ''A'' =
     Some \<lparr>best_cam_index = - 1, distance = 10, is_match = True, ref_img = ''A.png''\<rparr>"
    by (simp add: process_multi_camera_def scen_sys_valid_people scen_sys_status process_person_def
        publish_def check_every_camera_def acc_init_def edge_verify_def scen_frames_def)
  show ?thesis
    using scen_frames_capture by (simp add: vc st scen_sys_valid_people)
qed

text \<open>
  C3, as the code has it. Let a pass start from an idle state. At any later moment at
  which the pass has performed \<open>k\<close> of its writes and has not yet reset the flag, the
  registry is the registry of the start of the pass with those \<open>k\<close> writes applied, so
  each person's entry is the entry of the start of the pass with none, one
  (\<open>is_match\<close>), two (\<open>is_match\<close>, \<open>best_cam_index\<close>) or all three fields replaced by the
  values of the pass in flight; \<open>ref_img\<close> is never changed. The main loop does not read
  an entry as a whole: it reads \<open>is_match\<close>, \<open>best_cam_index\<close> (twice) and \<open>distance\<close> in
  separate steps, each from the entry as it is at that moment. So the camera index and
  the distance it shows for a person are each the one of the start of the pass or the
  one of the pass in flight, in any combination.
\<close>

theorem reads_during_pass:
  assumes "threads s = []" and "\<not> is_processing s"
    and "main_step verify s = Inr s1" and "is_processing s1"
    and "run_events verify evs s1 = Running s2"
    and "worker_steps evs \<le>
           length (pass_writes verify (current_frames s1) (valid_people s) (people_status s))"
  shows "is_processing s2 \<and>
         people_status s2 =
           mid_pass verify (current_frames s1) (valid_people s) (people_status s) (worker_steps evs) \<and>
         (\<forall>n st. people_status s n = Some st \<longrightarrow>
            (\<exists>m. people_status s2 n = Some m \<and> ref_img m = ref_img st \<and>
                 partly_published verify (current_frames s1) st m)) \<and>
         (\<forall>n ns cam_idx display_frame s3.
            pc s2 = AtDistance n ns cam_idx display_frame \<longrightarrow> main_step verify s2 = Inr s3 \<longrightarrow>
            (\<exists>st d. people_status s n = Some st \<and>
               windows s3 n = Some (Winner cam_idx display_frame d) \<and>
               (cam_idx = best_cam_index st \<or>
                cam_idx = best_cam_index (publish verify (current_frames s1) st)) \<and>
               (d = distance st \<or> d = distance (publish verify (current_frames s1) st))))"
proof -
  let ?fr = "current_frames s1"
  from main_step_effect[OF assms(3)] assms(1,2,4)
  have at: "pc s = AtCapture"
    and t: "threads s1 = [pass_writes verify ?fr (valid_people s1) (people_status s1)]"
    and e: "valid_people s1 = valid_people s" "people_status s1 = people_status s"
    by (auto split: if_splits)
  have "capture_dispatch verify s = Inr s1" using assms(3) at by (simp add: main_step_capture)
  from capture_dispatch_effect[OF this]
  have c: "cam_idx_read verify ?fr (people_status s1) (pc s1)"
    by (auto simp: cam_idx_read_def)
  from pass_in_flight[OF t assms(4) c assms(5)] assms(6)
  have a: "is_processing s2"
    and b: "people_status s2 =
      mid_pass verify ?fr (valid_people s) (people_status s) (worker_steps evs)"
    and ci: "cam_idx_read verify ?fr (people_status s) (pc s2)"
    by (simp_all add: e)
  have forms: "\<exists>m. people_status s2 n = Some m \<and> ref_img m = ref_img st \<and>
             partly_published verify ?fr st m"
    if "people_status s n = Some st" for n st
  proof -
    from mid_pass_forms[of "people_status s" n st verify ?fr "valid_people s" "worker_steps evs"] that
    obtain m where m: "people_status s2 n = Some m" "partly_published verify ?fr st m"
      unfolding b by blast
    from partly_published_fields(1)[OF m(2)] m show ?thesis by blast
  qed
  have shown: "\<exists>st d. people_status s n = Some st \<and>
               windows s3 n = Some (Winner cam_idx display_frame d) \<and>
               (cam_idx = best_cam_index st \<or>
                cam_idx = best_cam_index (publish verify ?fr st)) \<and>
               (d = distance st \<or> d = distance (publish verify ?fr st))"
    if p: "pc s2 = AtDistance n ns cam_idx display_frame" and m3: "main_step verify s2 = Inr s3"
    for n ns cam_idx display_frame s3
  proof -
    from ci p obtain st where st: "people_status s n = Some st"
      and cam: "cam_idx = best_cam_index st \<or> cam_idx = best_cam_index (publish verify ?fr st)"
      by (auto simp: cam_idx_read_def split: option.splits)
    from forms[OF st] obtain m where m: "people_status s2 n = Some m"
      "partly_published verify ?fr st m"
      by blast
    have "windows s3 n = Some (Winner cam_idx display_frame (distance m))"
      using m3 p m(1) by (auto simp: main_step_def show_window_def)
    with st cam partly_published_fields(3)[OF m(2)] show ?thesis by blast
  qed
  from a b forms shown show ?thesis by blast
qed

theorem reads_during_pass_witness:
  "\<exists>s1 s2 s3. threads scen_sys = [] \<and> \<not> is_processing scen_sys \<and>
     main_step scen_verify scen_sys = Inr s1 \<and> is_processing s1 \<and>
     run_events scen_verify
       [WorkerStep 0, WorkerStep 0, MainStep False, MainStep False, MainStep False] s1 =
       Running s2 \<and>
     worker_steps [WorkerStep 0, WorkerStep 0, MainStep False, MainStep False, MainStep False] = 2 \<and>
     length (pass_writes scen_verify (current_frames s1) (valid_people scen_sys)
       (people_status scen_sys)) = 6 \<and>
     is_processing s2 \<and>
     people_status s2 ''A'' =
       Some \<lparr>best_cam_index = 0, distance = 10, is_match = True, ref_img = ''A.png''\<rparr> \<and>
     pc s2 = AtDistance ''A'' [''B''] 0 ''f0'' \<and>
     main_step scen_verify s2 = Inr s3 \<and>
     windows s3 ''A'' = Some (Winner 0 ''f0'' 10)"
proof -
  obtain s1 where s1: "main_step scen_verify scen_sys = Inr s1" "is_processing s1"
    "current_frames s1 = scen_frames"
    using scen_first_step by blast
  have idle: "threads scen_sys = []" "\<not> is_processing scen_sys"
    by (simp_all add: scen_sys_def startup_fields)
  let ?evs = "[WorkerStep 0, WorkerStep 0, MainStep False, MainStep False, MainStep False]"
  have s1_eq: "main_step scen_verify scen_sys = Inr s1 \<Longrightarrow>
      state_of (run_events scen_verify ?evs s1) \<noteq> None \<and>
      pc (the (state_of (run_events scen_verify ?evs s1))) = AtDistance ''A'' [''B''] 0 ''f0''"
    by (auto simp: run_events_def main_step_def capture_dispatch_def worker_step_def
        scen_sys_def startup_def scen_camera_def cap_read_def Let_def person_writes_def
        check_every_camera_def acc_init_def scen_verify_def)
  from s1_eq[OF s1(1)] obtain s2 where run: "run_events scen_verify ?evs s1 = Running s2"
    and pc2: "pc s2 = AtDistance ''A'' [''B''] 0 ''f0''"
    by (cases "run_events scen_verify ?evs s1") auto
  have ws: "worker_steps ?evs = 2" by (simp add: worker_steps_def)
  have W: "pass_writes scen_verify scen_frames (valid_people scen_sys) (people_status scen_sys) =
      [SetMatch ''A'' True, SetCam ''A'' 0, SetDist ''A'' 0.2,
       SetMatch ''B'' False, SetCam ''B'' (- 1), SetDist ''B'' 10]"
    by (simp add: scen_sys_valid_people scen_sys_status person_writes_def check_every_camera_def
        acc_init_def scen_verify_def scen_frames_def)
  have mid: "mid_pass scen_verify scen_frames (valid_people scen_sys) (people_status scen_sys) 2 ''A'' =
       Some \<lparr>best_cam_index = 0, distance = 10, is_match = True, ref_img = ''A.png''\<rparr>"
    unfolding mid_pass_def W by (simp add: scen_sys_status numeral_2_eq_2)
  have before: "people_status scen_sys ''A'' =
      Some \<lparr>best_cam_index = - 1, distance = 10, is_match = False, ref_img = ''A.png''\<rparr>"
    by (simp add: scen_sys_status)
  have pub: "publish scen_verify scen_frames
       \<lparr>best_cam_index = - 1, distance = 10, is_match = False, ref_img = ''A.png''\<rparr> =
       \<lparr>best_cam_index = 0, distance = 0.2, is_match = True, ref_img = ''A.png''\<rparr>"
    by (simp add: publish_def check_every_camera_def acc_init_def scen_verify_def scen_frames_def)
  from reads_during_pass [of scen_sys scen_verify s1 ?evs s2, OF idle s1(1,2) run]
  have concl: "is_processing s2 \<and>
        people_status s2 =
          mid_pass scen_verify scen_frames (valid_people scen_sys) (people_status scen_sys) 2"
    by (simp add: ws s1(3) W)
  then have ps2: "people_status s2 ''A'' =
       Some \<lparr>best_cam_index = 0, distance = 10, is_match = True, ref_img = ''A.png''\<rparr>"
    using mid by simp
  let ?s3 = "show_window ''A'' (Winner 0 ''f0'' 10) [''B''] s2"
  have m3: "main_step scen_verify s2 = Inr ?s3"
    using pc2 ps2 by (simp add: main_step_def)
  have w3: "windows ?s3 ''A'' = Some (Winner 0 ''f0'' 10)" by (simp add: show_window_def)
  from idle s1 run ws W concl ps2 pc2 m3 w3 show ?thesis
    by (intro exI[of _ s1] exI[of _ s2] exI[of _ ?s3]) simp
qed

text \<open>
  C3 as stated fails. After the first write of the first pass the entry of A has
  \<open>is_match\<close> of the pass in flight with \<open>best_cam_index\<close> and \<open>distance\<close> of before.
  After two writes the main loop reads \<open>is_match\<close> and \<open>best_cam_index\<close> of the pass in
  flight and \<open>distance\<close> of before, and shows camera 0 as the winner at distance 10.0,
  which neither the initial values nor the completed pass give.
\<close>

theorem torn_read_counterexample:
  "people_status scen_sys ''A'' =
     Some \<lparr>best_cam_index = - 1, distance = 10, is_match = False, ref_img = ''A.png''\<rparr> \<and>
   people_status (process_multi_camera scen_verify scen_frames scen_sys) ''A'' =
     Some \<lparr>best_cam_index = 0, distance = 0.2, is_match = True, ref_img = ''A.png''\<rparr> \<and>
   state_of (run_events scen_verify [MainStep False, WorkerStep 0] scen_sys) \<noteq> None \<and>
   is_processing (the (state_of
     (run_events scen_verify [MainStep False, WorkerStep 0] scen_sys))) \<and>
   people_status (the (state_of
     (run_events scen_verify [MainStep False, WorkerStep 0] scen_sys))) ''A'' =
     Some \<lparr>best_cam_index = - 1, distance = 10, is_match = True, ref_img = ''A.png''\<rparr> \<and>
   state_of (run_events scen_verify
     [MainStep False, WorkerStep 0, WorkerStep 0, MainStep False, MainStep False, MainStep False,
      MainStep False]
     scen_sys) \<noteq> None \<and>
   is_processing (the (state_of (run_events scen_verify
     [MainStep False, WorkerStep 0, WorkerStep 0, MainStep False, MainStep False, MainStep False,
      MainStep False]
     scen_sys))) \<and>
   windows (the (state_of (run_events scen_verify
     [MainStep False, WorkerStep 0, WorkerStep 0, MainStep False, MainStep False, MainStep False,
      MainStep False]
     scen_sys))) ''A'' = Some (Winner 0 ''f0'' 10)"
  by (simp add: run_events_def main_step_def capture_dispatch_def worker_step_def show_window_def
      scen_sys_def startup_def scen_camera_def cap_read_def Let_def person_writes_def
      check_every_camera_def acc_init_def scen_verify_def process_multi_camera_def
      process_person_def publish_def scen_frames_def)



text \<open>
  C5. A person of \<open>valid_people\<close> for whom no camera of the snapshot gave a verified
  result has, after the pass, \<open>is_match = False\<close>, \<open>best_cam_index = -1\<close> and
  \<open>distance = 10.0\<close>; the reference image stays. (Every person of \<open>valid_people\<close> is a
  key of \<open>people_status\<close>: lemma \<open>startup_valid\<close>.)
\<close>

theorem no_verified_camera_status:
  assumes "set (valid_people s) \<subseteq> dom (people_status s)"
    and "n \<in> set (valid_people s)"
    and "people_status s n = Some st"
    and "verified_cams verify (ref_img st) frames_dict = []"
  shows "people_status (process_multi_camera verify frames_dict s) n =
           Some (st\<lparr>is_match := False, best_cam_index := - 1, distance := 10\<rparr>)"
  using assms by (simp add: process_multi_camera_def pass_loop_valid publish_none)

theorem no_verified_camera_status_witness:
  "set (valid_people scen_sys) \<subseteq> dom (people_status scen_sys) \<and>
   ''B'' \<in> set (valid_people scen_sys) \<and>
   people_status scen_sys ''B'' =
     Some \<lparr>best_cam_index = - 1, distance = 10, is_match = False, ref_img = ''B.png''\<rparr> \<and>
   verified_cams scen_verify ''B.png'' scen_frames = [] \<and>
   people_status (process_multi_camera scen_verify scen_frames scen_sys) ''B'' =
     Some \<lparr>best_cam_index = - 1, distance = 10, is_match = False, ref_img = ''B.png''\<rparr>"
  using no_verified_camera_status [of scen_sys "''B''"
      "\<lparr>best_cam_index = - 1, distance = 10, is_match = False, ref_img = ''B.png''\<rparr>"
      scen_verify scen_frames]
  by (simp add: scen_sys_valid_people scen_sys_status verified_cams_def scen_verify_def
      scen_frames_def)

text \<open>
  C6. A pair whose oracle call raises leaves the accumulators as they were, and the
  status published for the person is the one computed from the cameras whose call did
  not raise; every person of \<open>valid_people\<close> is published, so the pass is not aborted.
\<close>

theorem oracle_error_skips_pair:
  assumes "set (valid_people s) \<subseteq> dom (people_status s)"
    and "n \<in> set (valid_people s)"
    and "people_status s n = Some st"
  shows "(\<forall>a cam_idx frame. verify frame (ref_img st) = Raised \<longrightarrow>
            check_camera verify (ref_img st) a (cam_idx, frame) = a) \<and>
         people_status (process_multi_camera verify frames_dict s) n =
           Some (publish verify
                  (filter (\<lambda>(cam_idx, frame). verify frame (ref_img st) \<noteq> Raised) frames_dict) st)"
proof -
  have "check_camera verify (ref_img st) a (cam_idx, frame) = a"
    if "verify frame (ref_img st) = Raised" for a cam_idx frame
    using that by (cases a) simp
  then show ?thesis
    using assms by (simp add: process_multi_camera_def pass_loop_valid publish_filter_raised)
qed

theorem oracle_error_skips_pair_witness:
  "set (valid_people scen_sys) \<subseteq> dom (people_status scen_sys) \<and>
   ''A'' \<in> set (valid_people scen_sys) \<and>
   people_status scen_sys ''A'' =
     Some \<lparr>best_cam_index = - 1, distance = 10, is_match = False, ref_img = ''A.png''\<rparr> \<and>
   err_verify ''f0'' ''A.png'' = Raised \<and>
   check_camera err_verify ''A.png'' (- 1, 10, False) (0, ''f0'') = (- 1, 10, False) \<and>
   people_status (process_multi_camera err_verify scen_frames scen_sys) ''A'' =
     Some \<lparr>best_cam_index = 1, distance = 0.35, is_match = True, ref_img = ''A.png''\<rparr>"
  using oracle_error_skips_pair [of scen_sys "''A''"
      "\<lparr>best_cam_index = - 1, distance = 10, is_match = False, ref_img = ''A.png''\<rparr>"
      err_verify scen_frames]
  by (simp add: scen_sys_valid_people scen_sys_status err_verify_def scen_frames_def
      publish_def check_every_camera_def acc_init_def)

text \<open>
  C7. The status a pass publishes for a person it reaches is computed from the
  snapshot, the person's reference image and the answers of the oracle on the frames of
  the snapshot, and from nothing else. Two passes on the same snapshot, started from
  registries with the same keys and reference images whatever their other fields, with
  oracles that answer alike on every pair of a frame of the snapshot and the reference
  image of a person of \<open>valid_people\<close>, publish the same status for every person reached;
  and a pass run again on what it published changes nothing.
\<close>

theorem pass_determined_by_snapshot:
  assumes "valid_people s2 = valid_people s1"
    and "\<forall>n. map_option ref_img (people_status s2 n) = map_option ref_img (people_status s1 n)"
    and "\<forall>n st. n \<in> set (valid_people s1) \<longrightarrow> people_status s1 n = Some st \<longrightarrow>
           (\<forall>(cam_idx, frame) \<in> set frames_dict.
              verify2 frame (ref_img st) = verify1 frame (ref_img st))"
  shows "(\<forall>n \<in> set (reached (valid_people s1) (people_status s1)).
            people_status (process_multi_camera verify2 frames_dict s2) n =
            people_status (process_multi_camera verify1 frames_dict s1) n \<and>
            (\<exists>st. people_status s1 n = Some st \<and>
               people_status (process_multi_camera verify1 frames_dict s1) n =
                 Some (publish verify1 frames_dict st))) \<and>
         process_multi_camera verify1 frames_dict (process_multi_camera verify1 frames_dict s1) =
           process_multi_camera verify1 frames_dict s1"
proof (intro conjI)
  let ?ps1 = "people_status s1" and ?ps2 = "people_status s2" and ?vp = "valid_people s1"
  show "\<forall>n \<in> set (reached ?vp ?ps1).
            people_status (process_multi_camera verify2 frames_dict s2) n =
            people_status (process_multi_camera verify1 frames_dict s1) n \<and>
            (\<exists>st. ?ps1 n = Some st \<and>
               people_status (process_multi_camera verify1 frames_dict s1) n =
                 Some (publish verify1 frames_dict st))"
  proof (rule ballI)
  have d: "dom ?ps2 = dom ?ps1"
  proof -
    have "?ps2 n = None \<longleftrightarrow> ?ps1 n = None" for n
      using assms(2)[rule_format, of n] by (cases "?ps2 n"; cases "?ps1 n") simp_all
    then show ?thesis unfolding dom_def by simp
  qed
  have r: "reached ?vp ?ps2 = reached ?vp ?ps1" by (rule reached_cong[OF d])
  fix n
  assume n: "n \<in> set (reached ?vp ?ps1)"
  then have nv: "n \<in> set ?vp" using reached_subset by blast
  from n have "?ps1 n \<noteq> None" by (auto simp: reached_def dest: set_takeWhileD)
  then obtain st1 where st1: "?ps1 n = Some st1" by blast
  with assms(2)[rule_format, of n] obtain st2 where st2: "?ps2 n = Some st2"
    and ref: "ref_img st2 = ref_img st1"
    by (cases "?ps2 n") auto
  have "\<forall>(cam_idx, frame) \<in> set frames_dict.
          verify2 frame (ref_img st1) = verify1 frame (ref_img st1)"
    using assms(3) nv st1 by blast
  from publish_cong[of st2 st1 frames_dict verify2 verify1] ref this
  have "people_status (process_multi_camera verify2 frames_dict s2) n =
        people_status (process_multi_camera verify1 frames_dict s1) n"
    using n st1 st2 by (simp add: process_multi_camera_def pass_loop_eq assms(1) r)
  moreover have "\<exists>st. ?ps1 n = Some st \<and>
      people_status (process_multi_camera verify1 frames_dict s1) n =
        Some (publish verify1 frames_dict st)"
    using n st1 by (simp add: process_multi_camera_def pass_loop_eq)
  ultimately show "people_status (process_multi_camera verify2 frames_dict s2) n =
        people_status (process_multi_camera verify1 frames_dict s1) n \<and>
        (\<exists>st. ?ps1 n = Some st \<and>
           people_status (process_multi_camera verify1 frames_dict s1) n =
             Some (publish verify1 frames_dict st))"
    by simp
  qed
next
  let ?ps = "people_status s1" and ?vp = "valid_people s1"
  have r: "reached ?vp (pass_loop verify1 frames_dict ?vp ?ps) = reached ?vp ?ps"
    by (rule reached_cong) (rule pass_loop_dom)
  have e1: "pass_loop verify1 frames_dict ?vp (pass_loop verify1 frames_dict ?vp ?ps) =
      (\<lambda>n. if n \<in> set (reached ?vp ?ps)
           then map_option (publish verify1 frames_dict) (pass_loop verify1 frames_dict ?vp ?ps n)
           else pass_loop verify1 frames_dict ?vp ?ps n)"
    using pass_loop_eq[of verify1 frames_dict ?vp "pass_loop verify1 frames_dict ?vp ?ps"]
    unfolding r .
  have e2: "pass_loop verify1 frames_dict ?vp ?ps n =
      (if n \<in> set (reached ?vp ?ps) then map_option (publish verify1 frames_dict) (?ps n)
       else ?ps n)" for n
    by (simp add: pass_loop_eq)
  have "pass_loop verify1 frames_dict ?vp (pass_loop verify1 frames_dict ?vp ?ps) n =
        pass_loop verify1 frames_dict ?vp ?ps n" for n
    unfolding e1 by (cases "?ps n") (simp_all add: e2 publish_idem)
  then have "pass_loop verify1 frames_dict ?vp (pass_loop verify1 frames_dict ?vp ?ps) =
        pass_loop verify1 frames_dict ?vp ?ps"
    by (rule ext)
  then show "process_multi_camera verify1 frames_dict (process_multi_camera verify1 frames_dict s1) =
           process_multi_camera verify1 frames_dict s1"
    by (simp add: process_multi_camera_def)
qed

theorem pass_determined_by_snapshot_witness:
  "valid_people prior_sys = valid_people scen_sys \<and>
   people_status prior_sys ''A'' \<noteq> people_status scen_sys ''A'' \<and>
   alt_verify ''g0'' ''A.png'' \<noteq> scen_verify ''g0'' ''A.png'' \<and>
   ''A'' \<in> set (reached (valid_people scen_sys) (people_status scen_sys)) \<and>
   people_status (process_multi_camera alt_verify scen_frames prior_sys) ''A'' =
     people_status (process_multi_camera scen_verify scen_frames scen_sys) ''A'' \<and>
   people_status (process_multi_camera scen_verify scen_frames scen_sys) ''A'' =
     Some \<lparr>best_cam_index = 0, distance = 0.2, is_match = True, ref_img = ''A.png''\<rparr>"
proof -
  have vp: "valid_people prior_sys = valid_people scen_sys"
    by (simp add: prior_sys_valid_people scen_sys_valid_people)
  have refs: "\<forall>n. map_option ref_img (people_status prior_sys n) =
                   map_option ref_img (people_status scen_sys n)"
    by (simp add: prior_sys_status scen_sys_status)
  have agree: "\<forall>n st. n \<in> set (valid_people scen_sys) \<longrightarrow> people_status scen_sys n = Some st \<longrightarrow>
           (\<forall>(cam_idx, frame) \<in> set scen_frames.
              alt_verify frame (ref_img st) = scen_verify frame (ref_img st))"
    by (simp add: scen_frames_def alt_verify_def)
  have r: "''A'' \<in> set (reached (valid_people scen_sys) (people_status scen_sys))"
    by (simp add: reached_def scen_sys_valid_people scen_sys_status)
  have pub: "publish scen_verify scen_frames
       \<lparr>best_cam_index = - 1, distance = 10, is_match = False, ref_img = ''A.png''\<rparr> =
       \<lparr>best_cam_index = 0, distance = 0.2, is_match = True, ref_img = ''A.png''\<rparr>"
    by (simp add: publish_def check_every_camera_def acc_init_def scen_verify_def scen_frames_def)
  from pass_determined_by_snapshot [of prior_sys scen_sys scen_frames alt_verify scen_verify,
      OF vp refs agree]
  have ball: "\<forall>n \<in> set (reached (valid_people scen_sys) (people_status scen_sys)).
      people_status (process_multi_camera alt_verify scen_frames prior_sys) n =
      people_status (process_multi_camera scen_verify scen_frames scen_sys) n \<and>
      (\<exists>st. people_status scen_sys n = Some st \<and>
         people_status (process_multi_camera scen_verify scen_frames scen_sys) n =
           Some (publish scen_verify scen_frames st))"
    by blast
  from bspec[OF ball r] obtain st where
    eq: "people_status (process_multi_camera alt_verify scen_frames prior_sys) ''A'' =
         people_status (process_multi_camera scen_verify scen_frames scen_sys) ''A''"
    and st: "people_status scen_sys ''A'' = Some st"
    and p: "people_status (process_multi_camera scen_verify scen_frames scen_sys) ''A'' =
           Some (publish scen_verify scen_frames st)"
    by blast
  from st have "st = \<lparr>best_cam_index = - 1, distance = 10, is_match = False, ref_img = ''A.png''\<rparr>"
    by (simp add: scen_sys_status)
  with p pub eq
  have "people_status (process_multi_camera alt_verify scen_frames prior_sys) ''A'' =
          people_status (process_multi_camera scen_verify scen_frames scen_sys) ''A'' \<and>
        people_status (process_multi_camera scen_verify scen_frames scen_sys) ''A'' =
          Some \<lparr>best_cam_index = 0, distance = 0.2, is_match = True, ref_img = ''A.png''\<rparr>"
    by simp
  moreover have "people_status prior_sys ''A'' \<noteq> people_status scen_sys ''A''"
    by (simp add: prior_sys_status scen_sys_status)
  moreover have "alt_verify ''g0'' ''A.png'' \<noteq> scen_verify ''g0'' ''A.png''"
    by (simp add: alt_verify_def scen_verify_def)
  ultimately show ?thesis using vp r by simp
qed

text \<open>
  C8, as the code has it. Startup never ends the process. With at least one camera
  source configured, when no reference image loaded, or when no camera ever delivers a
  frame, the process never ends with exit status 1: it runs until the key \<open>q\<close> is read.
  With no camera source configured the first step of the main loop ends the process by
  the uncaught \<open>IndexError\<close> of \<open>caps[0]\<close>.
\<close>

theorem startup_enters_main_loop:
  "(camera_sources \<noteq> [] \<and>
    ((\<forall>p \<in> set people_config. imread (snd p) = None) \<or>
     (\<forall>src \<in> set camera_sources. \<forall>k. feed (VideoCapture src) k = None)) \<longrightarrow>
      exit_status (run_events verify evs (startup imread VideoCapture people_config camera_sources))
        \<noteq> Some 1 \<and>
      (MainStep True \<notin> set evs \<longrightarrow>
         exit_status (run_events verify evs (startup imread VideoCapture people_config camera_sources))
           = None)) \<and>
   (camera_sources = [] \<longrightarrow>
      run_events verify (MainStep q # evs)
        (startup imread VideoCapture people_config camera_sources) = Crashed IndexError)"
proof (intro conjI impI)
  let ?s0 = "startup imread VideoCapture people_config camera_sources"
  {
    assume a: "camera_sources \<noteq> [] \<and>
      ((\<forall>p \<in> set people_config. imread (snd p) = None) \<or>
       (\<forall>src \<in> set camera_sources. \<forall>k. feed (VideoCapture src) k = None))"
    then have init: "quiet ?s0" by (intro startup_quiet) simp_all
    have main: "quiet s'" if "quiet s" "main_step verify s = Inr s'" for s s'
      using main_step_quiet[OF that(1), of verify] that(2) by auto
    have work: "quiet (worker_step i s)" if "quiet s" for s :: "'a sys" and i
      using that by (rule worker_step_quiet)
    have live: "\<exists>s'. main_step verify s = Inr s'" if "quiet s" for s
      using main_step_quiet[OF that, of verify] by blast
    have nc: "run_events verify evs ?s0 \<noteq> Crashed e" for e
      by (rule run_events_no_crash[of quiet, OF init main work live])
    show "exit_status (run_events verify evs ?s0) \<noteq> Some 1"
      using nc by (cases "run_events verify evs ?s0") auto
    {
      assume "MainStep True \<notin> set evs"
      from run_events_no_quit[OF this] nc
      show "exit_status (run_events verify evs ?s0) = None"
        by (cases "run_events verify evs ?s0") auto
    }
  }
  {
    assume "camera_sources = []"
    then have "main_step verify ?s0 = Inl IndexError"
      by (simp add: main_step_def capture_dispatch_no_caps startup_fields)
    then show "run_events verify (MainStep q # evs) ?s0 = Crashed IndexError"
      by (simp add: run_events_Cons crashed_absorbing)
  }
qed

theorem startup_enters_main_loop_witness:
  "CAMERA_SOURCES \<noteq> [] \<and>
   imread_fails (snd (''Naitik'', ''./Images/naitik4.png'')) = None \<and>
   MainStep True \<notin> set [MainStep False, WorkerStep 0, MainStep False] \<and>
   exit_status (run_events scen_verify [MainStep False, WorkerStep 0, MainStep False]
     (startup imread_fails scen_camera PEOPLE_CONFIG CAMERA_SOURCES)) = None \<and>
   exit_status (run_events scen_verify [MainStep False, WorkerStep 0, MainStep False]
     (startup Some dead_camera PEOPLE_CONFIG CAMERA_SOURCES)) = None \<and>
   run_events scen_verify [MainStep False]
     (startup imread_fails dead_camera PEOPLE_CONFIG []) = Crashed IndexError"
  using startup_enters_main_loop [of CAMERA_SOURCES PEOPLE_CONFIG imread_fails scen_camera
      scen_verify "[MainStep False, WorkerStep 0, MainStep False]" False]
    startup_enters_main_loop [of CAMERA_SOURCES PEOPLE_CONFIG Some dead_camera
      scen_verify "[MainStep False, WorkerStep 0, MainStep False]" False]
    startup_enters_main_loop [of "[]" PEOPLE_CONFIG imread_fails dead_camera scen_verify "[]" False]
  by (simp add: CAMERA_SOURCES_def imread_fails_def dead_camera_def)

text \<open>
  C8 as stated fails: with no reference image loaded the process is still running after
  two iterations of the main loop, and so it is with cameras that never deliver a
  frame.
\<close>

theorem startup_exit_counterexample:
  "valid_people (startup imread_fails scen_camera PEOPLE_CONFIG CAMERA_SOURCES) = [] \<and>
   dom (people_status (startup imread_fails scen_camera PEOPLE_CONFIG CAMERA_SOURCES)) = {} \<and>
   exit_status (run_events scen_verify
     [MainStep False, MainStep False, MainStep False, MainStep False, MainStep False,
      MainStep False]
     (startup imread_fails scen_camera PEOPLE_CONFIG CAMERA_SOURCES)) = None \<and>
   counter (the (state_of (run_events scen_verify
     [MainStep False, MainStep False, MainStep False, MainStep False, MainStep False,
      MainStep False]
     (startup imread_fails scen_camera PEOPLE_CONFIG CAMERA_SOURCES)))) = 2 \<and>
   valid_people (startup Some dead_camera PEOPLE_CONFIG CAMERA_SOURCES) =
     [''Naitik'', ''Isha'', ''Keval''] \<and>
   exit_status (run_events scen_verify [MainStep False, MainStep False, MainStep False, MainStep False]
     (startup Some dead_camera PEOPLE_CONFIG CAMERA_SOURCES)) = None \<and>
   pc (the (state_of (run_events scen_verify
     [MainStep False, MainStep False, MainStep False, MainStep False]
     (startup Some dead_camera PEOPLE_CONFIG CAMERA_SOURCES)))) = AtCapture"
  by (simp add: run_events_def main_step_def capture_dispatch_def startup_def PEOPLE_CONFIG_def
      CAMERA_SOURCES_def scen_camera_def dead_camera_def cap_read_def Let_def imread_fails_def)

text \<open>
  C9. At the start of an iteration, with no camera configured, \<open>caps[0]\<close> raises
  \<open>IndexError\<close>. Otherwise the capture reads camera 0 twice and every other camera
  once, and the entry of camera 0 in \<open>current_frames\<close> is the second of the two frames
  (absent when that read delivered none); the first is dropped. No other step of the
  main thread and no step of a worker touches \<open>caps\<close> or \<open>current_frames\<close>.
\<close>

theorem dummy_read_of_camera_0:
  "(pc s = AtCapture \<longrightarrow>
      (case caps s of
         [] \<Rightarrow> main_step verify s = Inl IndexError
       | cap0 # rest \<Rightarrow>
           (\<exists>s'. main_step verify s = Inr s' \<and>
              caps s' = cap0\<lparr>cursor := cursor cap0 + 2\<rparr> #
                          map (\<lambda>c. c\<lparr>cursor := cursor c + 1\<rparr>) rest \<and>
              map_of (current_frames s') 0 = feed cap0 (cursor cap0 + 1)))) \<and>
   (pc s \<noteq> AtCapture \<longrightarrow>
      (\<forall>s'. main_step verify s = Inr s' \<longrightarrow>
         caps s' = caps s \<and> current_frames s' = current_frames s)) \<and>
   caps (worker_step i s) = caps s \<and> current_frames (worker_step i s) = current_frames s"
proof (intro conjI impI allI)
  assume at: "pc s = AtCapture"
  show "case caps s of
         [] \<Rightarrow> main_step verify s = Inl IndexError
       | cap0 # rest \<Rightarrow>
           (\<exists>s'. main_step verify s = Inr s' \<and>
              caps s' = cap0\<lparr>cursor := cursor cap0 + 2\<rparr> #
                          map (\<lambda>c. c\<lparr>cursor := cursor c + 1\<rparr>) rest \<and>
              map_of (current_frames s') 0 = feed cap0 (cursor cap0 + 1))"
  proof (cases "caps s")
    case Nil
    then show ?thesis by (simp add: main_step_capture[OF at] capture_dispatch_no_caps)
  next
    case (Cons cap0 rest)
    obtain s' where s': "capture_dispatch verify s = Inr s'"
      using capture_dispatch_Inr[OF Cons] by blast
    from capture_dispatch_effect[OF s']
    have "caps s' = cap0\<lparr>cursor := cursor cap0 + 2\<rparr> # map (\<lambda>c. c\<lparr>cursor := cursor c + 1\<rparr>) rest"
      and "current_frames s' = fst (capture_loop 0 (cap0\<lparr>cursor := Suc (cursor cap0)\<rparr> # rest))"
      by (auto simp: Cons)
    moreover have "map_of (fst (capture_loop 0 (cap0\<lparr>cursor := Suc (cursor cap0)\<rparr> # rest))) 0 =
        feed cap0 (cursor cap0 + 1)"
      using capture_loop_head[of 0 "cap0\<lparr>cursor := Suc (cursor cap0)\<rparr>" rest] by simp
    ultimately show ?thesis by (simp add: Cons main_step_capture[OF at] s')
  qed
next
  fix s'
  assume "pc s \<noteq> AtCapture" and "main_step verify s = Inr s'"
  from main_step_display[OF this]
  show "caps s' = caps s" and "current_frames s' = current_frames s" by simp_all
next
  show "caps (worker_step i s) = caps s" by (rule worker_step_fields)
  show "current_frames (worker_step i s) = current_frames s" by (rule worker_step_fields)
qed

theorem dummy_read_of_camera_0_witness:
  "pc count_sys = AtCapture \<and> map cursor (caps count_sys) = [5] \<and>
   (\<exists>s'. main_step (\<lambda>frame ref. Raised) count_sys = Inr s' \<and> map cursor (caps s') = [7] \<and>
      map_of (current_frames s') 0 = Some 6 \<and> pc s' \<noteq> AtCapture \<and>
      (\<exists>s''. main_step (\<lambda>frame ref. Raised) s' = Inr s'' \<and> map cursor (caps s'') = [7] \<and>
         map_of (current_frames s'') 0 = Some 6))"
proof -
  have c: "caps count_sys = [\<lparr>feed = Some, cursor = 5\<rparr>]"
    and v: "valid_people count_sys = []" and p: "pc count_sys = AtCapture"
    by (simp_all add: count_sys_def startup_def)
  from dummy_read_of_camera_0 [of count_sys "\<lambda>frame ref. Raised" 0] obtain s' where
    s': "main_step (\<lambda>frame ref. Raised) count_sys = Inr s'" "map cursor (caps s') = [7]"
      "map_of (current_frames s') 0 = Some 6"
    by (auto simp: c p)
  have fr: "current_frames s' \<noteq> []" using s'(3) by auto
  have "capture_dispatch (\<lambda>frame ref. Raised) count_sys = Inr s'"
    using s'(1) by (simp add: main_step_capture[OF p])
  from capture_dispatch_effect[OF this] fr have p': "pc s' = AtPerson []" by (auto simp: v)
  then have s'': "main_step (\<lambda>frame ref. Raised) s' = Inr (s'\<lparr>pc := AtWaitKey\<rparr>)"
    by (simp add: main_step_def)
  from dummy_read_of_camera_0 [of s' "\<lambda>frame ref. Raised" 0] s'' p' s'
  show ?thesis using c p by (intro conjI exI[of _ s'] exI[of _ "s'\<lparr>pc := AtWaitKey\<rparr>"]) simp_all
qed

text \<open>
  C10. A pass, complete or ended early, keeps the keys of \<open>people_status\<close> and every
  \<open>ref_img\<close>; a person it did not reach keeps the whole entry; of the other globals it
  assigns only \<open>is_processing\<close>.
\<close>

theorem pass_frame_effect:
  "dom (people_status (process_multi_camera verify frames_dict s)) = dom (people_status s) \<and>
   (\<forall>n. map_option ref_img (people_status (process_multi_camera verify frames_dict s) n) =
          map_option ref_img (people_status s n)) \<and>
   (\<forall>n. n \<notin> set (reached (valid_people s) (people_status s)) \<longrightarrow>
          people_status (process_multi_camera verify frames_dict s) n = people_status s n) \<and>
   process_multi_camera verify frames_dict s =
     s\<lparr>people_status := people_status (process_multi_camera verify frames_dict s),
       is_processing := False\<rparr>"
  by (simp add: process_multi_camera_def pass_loop_dom pass_loop_ref_img pass_loop_unreached)

theorem pass_frame_effect_witness:
  "reached (valid_people abort_sys) (people_status abort_sys) = [''A''] \<and>
   ''B'' \<notin> set (reached (valid_people abort_sys) (people_status abort_sys)) \<and>
   people_status (process_multi_camera scen_verify scen_frames abort_sys) ''B'' =
     people_status abort_sys ''B'' \<and>
   people_status (process_multi_camera scen_verify scen_frames abort_sys) ''B'' =
     Some \<lparr>best_cam_index = - 1, distance = 10, is_match = False, ref_img = ''B.png''\<rparr>"
proof -
  have r: "reached (valid_people abort_sys) (people_status abort_sys) = [''A'']"
    by (simp add: abort_sys_def reached_def scen_sys_status)
  have b: "people_status abort_sys ''B'' =
     Some \<lparr>best_cam_index = - 1, distance = 10, is_match = False, ref_img = ''B.png''\<rparr>"
    by (simp add: abort_sys_def scen_sys_status)
  from pass_frame_effect [of scen_verify scen_frames abort_sys] show ?thesis
    by (simp add: r b)
qed

end
